theory Spec2Isabelle
  imports Main "HOL-Library.Char_ord"
begin

section \<open>Strings and character classes\<close>

text \<open>
  The analyser of \<^verbatim>\<open>src/parsers.ts\<close> works on JavaScript strings and regular
  expressions. A string is modelled as a \<^typ>\<open>string\<close>, one \<^typ>\<open>char\<close> per code unit;
  the model therefore covers inputs whose code units are below 256. On that range the
  classes \<^verbatim>\<open>\d\<close>, \<^verbatim>\<open>\w\<close>, \<^verbatim>\<open>\s\<close> and the dot of a regular expression without
  flags are the following sets.
\<close>

definition is_digit :: "char \<Rightarrow> bool" where
  "is_digit c = (CHR ''0'' \<le> c \<and> c \<le> CHR ''9'')"

definition is_upper :: "char \<Rightarrow> bool" where
  "is_upper c = (CHR ''A'' \<le> c \<and> c \<le> CHR ''Z'')"

definition is_lower :: "char \<Rightarrow> bool" where
  "is_lower c = (CHR ''a'' \<le> c \<and> c \<le> CHR ''z'')"

definition is_word :: "char \<Rightarrow> bool" where
  "is_word c = (is_lower c \<or> is_upper c \<or> is_digit c \<or> c = CHR ''_'')"

definition is_space :: "char \<Rightarrow> bool" where
  "is_space c = (c \<in> set [CHR 0x09, CHR 0x0A, CHR 0x0B, CHR 0x0C, CHR 0x0D, CHR 0x20, CHR 0xA0])"

definition is_line_terminator :: "char \<Rightarrow> bool" where
  "is_line_terminator c = (c = CHR 0x0A \<or> c = CHR 0x0D)"

text \<open>
  Case folding of the \<^verbatim>\<open>i\<close> flag (without the \<^verbatim>\<open>u\<close> flag): a code unit is compared
  through its upper-case form, and a code unit of 128 or more never folds onto an ASCII
  letter. Every letter written in the patterns below is ASCII, so folding the ASCII
  letters is all that a comparison with them can observe.
\<close>

definition Canonicalize :: "char \<Rightarrow> char" where
  "Canonicalize c = (if is_lower c then char_of (of_char c - (32::nat)) else c)"

datatype cls =
    Lit char
  | Digit
  | WordChar
  | Space
  | NonSpace
  | UpperAZ
  | OneOf "char list"
  | NoneOf "char list"
  | Dot

fun cls_mem :: "bool \<Rightarrow> cls \<Rightarrow> char \<Rightarrow> bool" where
  "cls_mem ic (Lit a) c = (if ic then Canonicalize a = Canonicalize c else a = c)"
| "cls_mem ic Digit c = is_digit c"
| "cls_mem ic WordChar c = is_word c"
| "cls_mem ic Space c = is_space c"
| "cls_mem ic NonSpace c = (\<not> is_space c)"
| "cls_mem ic UpperAZ c = (if ic then is_upper (Canonicalize c) else is_upper c)"
| "cls_mem ic (OneOf as) c =
     (if ic then Canonicalize c \<in> Canonicalize ` set as else c \<in> set as)"
| "cls_mem ic (NoneOf as) c =
     (if ic then Canonicalize c \<notin> Canonicalize ` set as else c \<notin> set as)"
| "cls_mem ic Dot c = (\<not> is_line_terminator c)"

declare cls_mem.simps [simp del]

section \<open>Regular expressions: a backtracking matcher\<close>

text \<open>
  The patterns of the source are kept as syntax trees and run by one matcher, written
  after the continuation-passing semantics of the language standard: a matcher takes a
  state and a continuation, and the first alternative whose continuation succeeds wins.
  \<open>Rep mn mx greedy r\<close> is the quantifier \<^verbatim>\<open>{mn,mx}\<close> (\<open>None\<close> for no upper bound),
  lazy when \<open>greedy\<close> is false; \<open>Cap n r\<close> is the \<open>n\<close>-th capturing group; \<open>Bol\<close> is
  \<^verbatim>\<open>^\<close> and \<open>WordB\<close> is \<^verbatim>\<open>\b\<close>.
\<close>

datatype re =
    Chr cls
  | Seq re re
  | Alt re re
  | Rep nat "nat option" bool re
  | Cap nat re
  | Bol
  | WordB
  | Eps

text \<open>
  A state is a position in the input: the code unit before it (none at the start of the
  input), the input that remains, and the groups captured so far (latest first).
\<close>

datatype mstate = St (prev: "char option") (remaining: string) (captures: "(nat \<times> string) list")

type_synonym cont = "mstate \<Rightarrow> mstate option"

text \<open>
  The quantifier. An iteration that is not required (\<open>mn = 0\<close>) and consumes nothing is
  cut off, as in the standard, where the test is that the end index did not move; no
  matcher here moves backwards, so "did not move" is "what remains did not get shorter".
  No group of the source's patterns lies inside a quantifier, so no capture is reset.
\<close>

function RepeatMatcher ::
  "(mstate \<Rightarrow> cont \<Rightarrow> mstate option) \<Rightarrow> nat \<Rightarrow> nat option \<Rightarrow> bool \<Rightarrow> mstate \<Rightarrow> cont \<Rightarrow> mstate option"
where
  "RepeatMatcher mt mn mx greedy x c =
     (if mx = Some 0 then c x
      else
        let d = (\<lambda>y. if mn = 0 \<and> \<not> length (remaining y) < length (remaining x) then None
                     else RepeatMatcher mt (mn - 1) (map_option (\<lambda>n. n - 1) mx) greedy y c)
        in if mn \<noteq> 0 then mt x d
           else if \<not> greedy then (case c x of Some z \<Rightarrow> Some z | None \<Rightarrow> mt x d)
           else (case mt x d of Some z \<Rightarrow> Some z | None \<Rightarrow> c x))"
  by pat_completeness auto
termination
  by (relation "measures [\<lambda>(mt, mn, mx, g, x, c). mn,
                          \<lambda>(mt, mn, mx, g, x, c). length (remaining x)]") auto

declare RepeatMatcher.simps [simp del]

definition IsWordChar :: "char option \<Rightarrow> bool" where
  "IsWordChar co = (case co of None \<Rightarrow> False | Some c \<Rightarrow> is_word c)"

definition lookahead :: "mstate \<Rightarrow> char option" where
  "lookahead x = (case remaining x of [] \<Rightarrow> None | c # _ \<Rightarrow> Some c)"

fun Matcher :: "re \<Rightarrow> bool \<Rightarrow> mstate \<Rightarrow> cont \<Rightarrow> mstate option" where
  "Matcher (Chr k) ic x c =
     (case remaining x of
        [] \<Rightarrow> None
      | ch # rest \<Rightarrow> if cls_mem ic k ch then c (St (Some ch) rest (captures x)) else None)"
| "Matcher (Seq r1 r2) ic x c = Matcher r1 ic x (\<lambda>y. Matcher r2 ic y c)"
| "Matcher (Alt r1 r2) ic x c =
     (case Matcher r1 ic x c of Some z \<Rightarrow> Some z | None \<Rightarrow> Matcher r2 ic x c)"
| "Matcher (Rep mn mx greedy r) ic x c =
     RepeatMatcher (\<lambda>y d. Matcher r ic y d) mn mx greedy x c"
| "Matcher (Cap n r) ic x c =
     Matcher r ic x (\<lambda>y. c (St (prev y) (remaining y)
        ((n, take (length (remaining x) - length (remaining y)) (remaining x)) # captures y)))"
| "Matcher Bol ic x c = (if prev x = None then c x else None)"
| "Matcher WordB ic x c =
     (if IsWordChar (prev x) \<noteq> IsWordChar (lookahead x) then c x else None)"
| "Matcher Eps ic x c = c x"

text \<open>
  A regular expression object is a pattern with its \<^verbatim>\<open>i\<close> flag. None of the source's
  has the \<^verbatim>\<open>g\<close> or \<^verbatim>\<open>y\<close> flag, so \<^verbatim>\<open>match\<close> and \<^verbatim>\<open>test\<close> search from the start of the
  string, trying each start position in turn, and keep no state between calls.
\<close>

type_synonym regexp = "re \<times> bool"

datatype match = Match (matched: string) (groups: "(nat \<times> string) list")

fun RegExpExec :: "regexp \<Rightarrow> char option \<Rightarrow> string \<Rightarrow> match option" where
  "RegExpExec rx p [] =
     (case Matcher (fst rx) (snd rx) (St p [] []) Some of
        None \<Rightarrow> None
      | Some z \<Rightarrow> Some (Match [] (captures z)))"
| "RegExpExec rx p (ch # rest) =
     (case Matcher (fst rx) (snd rx) (St p (ch # rest) []) Some of
        None \<Rightarrow> RegExpExec rx (Some ch) rest
      | Some z \<Rightarrow>
          Some (Match (take (length (ch # rest) - length (remaining z)) (ch # rest)) (captures z)))"

definition re_match :: "regexp \<Rightarrow> string \<Rightarrow> match option" where
  "re_match rx s = RegExpExec rx None s"

definition re_test :: "regexp \<Rightarrow> string \<Rightarrow> bool" where
  "re_test rx s = (re_match rx s \<noteq> None)"

definition group :: "match \<Rightarrow> nat \<Rightarrow> string option" where
  "group mt n = map_of (groups mt) n"

fun seqs :: "re list \<Rightarrow> re" where
  "seqs [] = Eps"
| "seqs [r] = r"
| "seqs (r # rs) = Seq r (seqs rs)"

fun alts :: "re list \<Rightarrow> re" where
  "alts [] = Eps"
| "alts [r] = r"
| "alts (r # rs) = Alt r (alts rs)"

definition lit :: "string \<Rightarrow> re" where
  "lit s = seqs (map (\<lambda>c. Chr (Lit c)) s)"

abbreviation star :: "re \<Rightarrow> re" where
  "star r \<equiv> Rep 0 None True r"

abbreviation plus1 :: "re \<Rightarrow> re" where
  "plus1 r \<equiv> Rep 1 None True r"


section \<open>What the matcher computes\<close>

text \<open>
  The relation \<open>matches ic r x y\<close> says that pattern \<open>r\<close> can lead from state \<open>x\<close> to
  state \<open>y\<close>. The matcher is sound and complete for it: it succeeds exactly when some
  state reachable by the pattern is accepted by the continuation.
\<close>

definition pos :: "mstate \<Rightarrow> char option \<times> string" where
  "pos x = (prev x, remaining x)"

inductive matches :: "bool \<Rightarrow> re \<Rightarrow> mstate \<Rightarrow> mstate \<Rightarrow> bool"
  for ic :: bool
where
  m_Chr: "remaining x = ch # s \<Longrightarrow> cls_mem ic k ch \<Longrightarrow>
     matches ic (Chr k) x (St (Some ch) s (captures x))"
| m_Seq: "matches ic r1 x y \<Longrightarrow> matches ic r2 y z \<Longrightarrow> matches ic (Seq r1 r2) x z"
| m_AltL: "matches ic r1 x y \<Longrightarrow> matches ic (Alt r1 r2) x y"
| m_AltR: "matches ic r2 x y \<Longrightarrow> matches ic (Alt r1 r2) x y"
| m_Rep_stop: "mn = 0 \<or> mx = Some 0 \<Longrightarrow> matches ic (Rep mn mx g r) x x"
| m_Rep_iter: "mx \<noteq> Some 0 \<Longrightarrow> matches ic r x y \<Longrightarrow>
     (mn = 0 \<longrightarrow> length (remaining y) < length (remaining x)) \<Longrightarrow>
     matches ic (Rep (mn - 1) (map_option (\<lambda>n. n - 1) mx) g r) y z \<Longrightarrow>
     matches ic (Rep mn mx g r) x z"
| m_Cap: "matches ic r x y \<Longrightarrow>
     matches ic (Cap n r) x (St (prev y) (remaining y)
       ((n, take (length (remaining x) - length (remaining y)) (remaining x)) # captures y))"
| m_Bol: "prev x = None \<Longrightarrow> matches ic Bol x x"
| m_WordB: "IsWordChar (prev x) \<noteq> IsWordChar (lookahead x) \<Longrightarrow> matches ic WordB x x"
| m_Eps: "matches ic Eps x x"

lemma RepeatMatcher_sound:
  "(\<And>x c z. mt x c = Some z \<Longrightarrow> \<exists>y. matches ic r x y \<and> c y = Some z) \<Longrightarrow>
   RepeatMatcher mt mn mx g x c = Some z \<Longrightarrow>
   \<exists>y. matches ic (Rep mn mx g r) x y \<and> c y = Some z"
proof (induction mt mn mx g x c rule: RepeatMatcher.induct)
  case (1 mt mn mx greedy x c)
  note mt = "1.prems"(1) and run = "1.prems"(2)
  define d where "d = (\<lambda>y. if mn = 0 \<and> \<not> length (remaining y) < length (remaining x) then None
                 else RepeatMatcher mt (mn - 1) (map_option (\<lambda>n. n - 1) mx) greedy y c)"
  have unfold: "RepeatMatcher mt mn mx greedy x c =
     (if mx = Some 0 then c x
      else if mn \<noteq> 0 then mt x d
      else if \<not> greedy then (case c x of Some z \<Rightarrow> Some z | None \<Rightarrow> mt x d)
      else (case mt x d of Some z \<Rightarrow> Some z | None \<Rightarrow> c x))"
    by (subst RepeatMatcher.simps) (simp add: Let_def d_def cong: option.case_cong)
  from run consider
      (stop) "mn = 0 \<or> mx = Some 0" "c x = Some z"
    | (iter) "mx \<noteq> Some 0" "mt x d = Some z"
    unfolding unfold by (auto split: if_splits option.splits)
  then show ?case
  proof cases
    case stop
    then show ?thesis by (blast intro: m_Rep_stop)
  next
    case iter
    from mt [OF iter(2)] obtain y where y: "matches ic r x y" "d y = Some z"
      by blast
    from y(2) have ok: "\<not> (mn = 0 \<and> \<not> length (remaining y) < length (remaining x))"
      and rec: "RepeatMatcher mt (mn - 1) (map_option (\<lambda>n. n - 1) mx) greedy y c = Some z"
      by (auto simp: d_def split: if_splits)
    from "1.IH" [OF iter(1) ok mt rec] obtain y' where
      y': "matches ic (Rep (mn - 1) (map_option (\<lambda>n. n - 1) mx) greedy r) y y'"
          "c y' = Some z" by blast
    from ok have "mn = 0 \<longrightarrow> length (remaining y) < length (remaining x)"
      by auto
    from m_Rep_iter [OF iter(1) y(1) this y'(1)] y'(2) show ?thesis by blast
  qed
qed

lemma Matcher_sound:
  "Matcher r ic x c = Some z \<Longrightarrow> \<exists>y. matches ic r x y \<and> c y = Some z"
proof (induction r arbitrary: x c z)
  case (Chr k)
  then obtain ch s where x: "remaining x = ch # s" and k: "cls_mem ic k ch"
    and c: "c (St (Some ch) s (captures x)) = Some z"
    by (auto split: list.splits if_splits)
  from m_Chr [OF x k] c show ?case by blast
next
  case (Seq r1 r2)
  from Seq.prems have "Matcher r1 ic x (\<lambda>y. Matcher r2 ic y c) = Some z" by simp
  from Seq.IH(1) [OF this] obtain y where
    y: "matches ic r1 x y" "Matcher r2 ic y c = Some z" by blast
  from Seq.IH(2) [OF y(2)] obtain y' where
    "matches ic r2 y y'" "c y' = Some z" by blast
  with y(1) show ?case by (blast intro: m_Seq)
next
  case (Alt r1 r2)
  from Alt.prems consider "Matcher r1 ic x c = Some z" | "Matcher r2 ic x c = Some z"
    by (auto split: option.splits)
  then show ?case
    by cases (blast dest: Alt.IH intro: m_AltL m_AltR)+
next
  case (Rep mn mx g r)
  from Rep.prems have "RepeatMatcher (Matcher r ic) mn mx g x c = Some z" by simp
  from RepeatMatcher_sound [OF Rep.IH this] show ?case .
next
  case (Cap n r)
  let ?c = "\<lambda>y. c (St (prev y) (remaining y)
        ((n, take (length (remaining x) - length (remaining y)) (remaining x)) # captures y))"
  from Cap.prems have "Matcher r ic x ?c = Some z" by simp
  from Cap.IH [OF this] obtain y where y: "matches ic r x y" "?c y = Some z"
    by blast
  from m_Cap [OF y(1)] y(2) show ?case by blast
next
  case Bol
  then have "prev x = None" "c x = Some z" by (auto split: if_splits)
  then show ?case by (blast intro: m_Bol)
next
  case WordB
  then have "IsWordChar (prev x) \<noteq> IsWordChar (lookahead x)" "c x = Some z"
    by (auto split: if_splits)
  then show ?case by (blast intro: m_WordB)
next
  case Eps
  then show ?case by (auto intro: m_Eps)
qed

lemma Matcher_complete:
  "matches ic r x y \<Longrightarrow> pos x' = pos x \<Longrightarrow> (\<And>y'. pos y' = pos y \<Longrightarrow> c y' \<noteq> None) \<Longrightarrow>
   Matcher r ic x' c \<noteq> None"
proof (induction arbitrary: x' c rule: matches.induct)
  case (m_Chr x ch s k)
  from m_Chr.prems(1) m_Chr.hyps have "remaining x' = ch # s" by (simp add: pos_def)
  moreover have "c (St (Some ch) s (captures x')) \<noteq> None"
    by (rule m_Chr.prems(2)) (simp add: pos_def)
  ultimately show ?case using m_Chr.hyps(2) by simp
next
  case (m_Seq r1 x y r2 z)
  have "Matcher r2 ic y0 c \<noteq> None" if "pos y0 = pos y" for y0
    using that m_Seq.prems(2) by (rule m_Seq.IH(2))
  with m_Seq.prems(1) have "Matcher r1 ic x' (\<lambda>y. Matcher r2 ic y c) \<noteq> None"
    by (rule m_Seq.IH(1))
  then show ?case by simp
next
  case (m_AltL r1 x y r2)
  from m_AltL.prems have "Matcher r1 ic x' c \<noteq> None" by (rule m_AltL.IH)
  then show ?case by (auto split: option.splits)
next
  case (m_AltR r2 x y r1)
  from m_AltR.prems have "Matcher r2 ic x' c \<noteq> None" by (rule m_AltR.IH)
  then show ?case by (auto split: option.splits)
next
  case (m_Rep_stop mn mx g r x)
  from m_Rep_stop.prems(2) [OF m_Rep_stop.prems(1)] m_Rep_stop.hyps show ?case
    by (subst Matcher.simps, subst RepeatMatcher.simps) (auto simp: Let_def split: option.splits)
next
  case (m_Rep_iter mx r x y mn g z)
  define d where "d = (\<lambda>y. if mn = 0 \<and> \<not> length (remaining y) < length (remaining x') then None
                 else RepeatMatcher (Matcher r ic) (mn - 1) (map_option (\<lambda>n. n - 1) mx) g y c)"
  have unfold: "Matcher (Rep mn mx g r) ic x' c =
     (if mx = Some 0 then c x'
      else if mn \<noteq> 0 then Matcher r ic x' d
      else if \<not> g then (case c x' of Some z \<Rightarrow> Some z | None \<Rightarrow> Matcher r ic x' d)
      else (case Matcher r ic x' d of Some z \<Rightarrow> Some z | None \<Rightarrow> c x'))"
    by (subst Matcher.simps, subst RepeatMatcher.simps)
       (simp add: Let_def d_def cong: option.case_cong)
  have d: "d y0 \<noteq> None" if "pos y0 = pos y" for y0
  proof -
    from that m_Rep_iter.hyps(3) m_Rep_iter.prems(1)
    have "\<not> (mn = 0 \<and> \<not> length (remaining y0) < length (remaining x'))"
      by (auto simp: pos_def)
    moreover have "Matcher (Rep (mn - 1) (map_option (\<lambda>n. n - 1) mx) g r) ic y0 c \<noteq> None"
      using that m_Rep_iter.prems(2) by (rule m_Rep_iter.IH(2))
    ultimately show ?thesis by (simp add: d_def)
  qed
  from m_Rep_iter.prems(1) d have "Matcher r ic x' d \<noteq> None"
    by (rule m_Rep_iter.IH(1))
  with m_Rep_iter.hyps(1) show ?case
    unfolding unfold by (auto split: option.splits)
next
  case (m_Cap r x y n)
  have "c (St (prev y0) (remaining y0)
        ((n, take (length (remaining x') - length (remaining y0)) (remaining x')) # captures y0)) \<noteq> None"
    if "pos y0 = pos y" for y0
    using that by (intro m_Cap.prems(2)) (simp add: pos_def)
  with m_Cap.prems(1) have "Matcher r ic x' (\<lambda>y. c (St (prev y) (remaining y)
        ((n, take (length (remaining x') - length (remaining y)) (remaining x')) # captures y))) \<noteq> None"
    by (rule m_Cap.IH)
  then show ?case by simp
next
  case (m_Bol x)
  from m_Bol.prems(2) [OF m_Bol.prems(1)] m_Bol.prems(1) m_Bol.hyps show ?case
    by (simp add: pos_def)
next
  case (m_WordB x)
  from m_WordB.prems(2) [OF m_WordB.prems(1)] m_WordB.prems(1) m_WordB.hyps show ?case
    by (simp add: pos_def lookahead_def)
next
  case (m_Eps x)
  from m_Eps.prems(2) [OF m_Eps.prems(1)] show ?case by simp
qed

text \<open>
  A pattern only moves forward: what remains after a match is a suffix of what remained
  before it, and the code unit before the new position is the last one consumed.
\<close>

definition adv :: "char option \<Rightarrow> string \<Rightarrow> char option" where
  "adv p w = (if w = [] then p else Some (last w))"

lemma adv_simps [simp]:
  "adv p [] = p" "adv p (w @ [c]) = Some c" "adv p (c # w) = adv (Some c) w"
  "adv (adv p u) w = adv p (u @ w)"
  by (auto simp: adv_def)

lemma matches_suffix:
  "matches ic r x y \<Longrightarrow> \<exists>w. remaining x = w @ remaining y \<and> prev y = adv (prev x) w"
proof (induction rule: matches.induct)
  case (m_Chr x ch s k)
  then show ?case by (intro exI [of _ "[ch]"]) simp
next
  case (m_Seq r1 x y r2 z)
  then obtain w1 w2 where "remaining x = w1 @ remaining y" "prev y = adv (prev x) w1"
    "remaining y = w2 @ remaining z" "prev z = adv (prev y) w2" by blast
  then show ?case by (intro exI [of _ "w1 @ w2"]) simp
next
  case (m_Rep_iter mx r x y mn g z)
  then obtain w1 w2 where "remaining x = w1 @ remaining y" "prev y = adv (prev x) w1"
    "remaining y = w2 @ remaining z" "prev z = adv (prev y) w2" by blast
  then show ?case by (intro exI [of _ "w1 @ w2"]) simp
qed (auto intro: exI [of _ "[]"])

lemma Matcher_remaining_le:
  assumes "Matcher r ic x Some = Some z"
  shows "length (remaining z) \<le> length (remaining x)"
proof -
  from Matcher_sound [OF assms] have "matches ic r x z" by auto
  from matches_suffix [OF this] show ?thesis by auto
qed

text \<open>Inversion of the relation, constructor by constructor.\<close>

inductive_simps matches_Chr_iff: "matches ic (Chr k) x y"
inductive_simps matches_Seq_iff: "matches ic (Seq r1 r2) x y"
inductive_simps matches_Alt_iff: "matches ic (Alt r1 r2) x y"
inductive_simps matches_Cap_iff: "matches ic (Cap n r) x y"
inductive_simps matches_Bol_iff: "matches ic Bol x y"
inductive_simps matches_WordB_iff: "matches ic WordB x y"
inductive_simps matches_Eps_iff: "matches ic Eps x y"
inductive_simps matches_Rep_iff: "matches ic (Rep mn mx g r) x y"

lemma matches_seqs_Cons:
  "matches ic (seqs (r # rs)) x z \<longleftrightarrow> (\<exists>y. matches ic r x y \<and> matches ic (seqs rs) y z)"
  by (cases rs) (auto simp: matches_Seq_iff matches_Eps_iff)

lemma matches_alts:
  "matches ic (alts rs) x y \<longleftrightarrow> (rs = [] \<and> y = x) \<or> list_ex (\<lambda>r. matches ic r x y) rs"
proof (induction rs rule: alts.induct)
  case 1
  show ?case by (auto simp: matches_Eps_iff)
next
  case (2 r)
  show ?case by simp
next
  case (3 r v va)
  then show ?case by (auto simp: matches_Alt_iff)
qed

text \<open>A quantified character class consumes a run of characters of the class.\<close>

lemma matches_Rep_Chr_imp:
  "matches ic r0 x y \<Longrightarrow> r0 = Rep mn mx g (Chr k) \<Longrightarrow>
   (case mx of None \<Rightarrow> True | Some n \<Rightarrow> mn \<le> n) \<Longrightarrow>
   \<exists>w. remaining x = w @ remaining y \<and> list_all (cls_mem ic k) w \<and> mn \<le> length w
       \<and> (case mx of None \<Rightarrow> True | Some n \<Rightarrow> length w \<le> n)
       \<and> y = St (adv (prev x) w) (remaining y) (captures x)"
proof (induction arbitrary: mn mx rule: matches.induct)
  case (m_Rep_stop mn' mx' g' r x)
  then have "mn = 0" by (auto split: option.splits)
  then show ?case by (intro exI [of _ "[]"]) (cases x, simp split: option.splits)
next
  case (m_Rep_iter mx' r x y mn' g' z)
  from m_Rep_iter.prems(1) have eq: "mx' = mx" "r = Chr k" "mn' = mn" "g' = g" by simp_all
  from m_Rep_iter.hyps(2) obtain ch s where x: "remaining x = ch # s" and ch: "cls_mem ic k ch"
    and y: "y = St (Some ch) s (captures x)"
    unfolding eq by (auto simp: matches_Chr_iff)
  have bound: "case map_option (\<lambda>n. n - 1) mx of None \<Rightarrow> True | Some n \<Rightarrow> mn - 1 \<le> n"
    using m_Rep_iter.prems(2) by (auto split: option.splits)
  from m_Rep_iter.IH(2) [OF _ bound] eq obtain w where
    w: "remaining y = w @ remaining z" "list_all (cls_mem ic k) w" "mn - 1 \<le> length w"
       "case map_option (\<lambda>n. n - 1) mx of None \<Rightarrow> True | Some n \<Rightarrow> length w \<le> n"
       "z = St (adv (prev y) w) (remaining z) (captures y)"
    by auto
  show ?case
  proof (intro exI [of _ "ch # w"] conjI)
    show "remaining x = (ch # w) @ remaining z" using x y w(1) by simp
    show "list_all (cls_mem ic k) (ch # w)" using ch w(2) by simp
    show "mn \<le> length (ch # w)" using w(3) by simp
    show "case mx of None \<Rightarrow> True | Some n \<Rightarrow> length (ch # w) \<le> n"
      using w(4) m_Rep_iter.hyps(1) eq by (auto split: option.splits)
    show "z = St (adv (prev x) (ch # w)) (remaining z) (captures x)"
      using w(5) y by simp
  qed
qed simp_all

lemma matches_Rep_Chr_conv:
  "list_all (cls_mem ic k) w \<Longrightarrow> mn \<le> length w \<Longrightarrow>
   (case mx of None \<Rightarrow> True | Some n \<Rightarrow> length w \<le> n) \<Longrightarrow>
   matches ic (Rep mn mx g (Chr k)) (St p (w @ s) cs) (St (adv p w) s cs)"
proof (induction w arbitrary: p mn mx)
  case Nil
  then show ?case by (auto intro: m_Rep_stop)
next
  case (Cons ch w)
  have 1: "mx \<noteq> Some 0" using Cons.prems(3) by (auto split: option.splits)
  have 2: "matches ic (Chr k) (St p ((ch # w) @ s) cs) (St (Some ch) (w @ s) cs)"
    using Cons.prems(1) by (auto simp: matches_Chr_iff)
  have 3: "matches ic (Rep (mn - 1) (map_option (\<lambda>n. n - 1) mx) g (Chr k))
             (St (Some ch) (w @ s) cs) (St (adv (Some ch) w) s cs)"
    using Cons.prems by (intro Cons.IH) (auto split: option.splits)
  from m_Rep_iter [OF 1 2 _ 3] show ?case by simp
qed

lemma matches_Rep_Chr:
  assumes "case mx of None \<Rightarrow> True | Some n \<Rightarrow> mn \<le> n"
  shows "matches ic (Rep mn mx g (Chr k)) x y \<longleftrightarrow>
     (\<exists>w. remaining x = w @ remaining y \<and> list_all (cls_mem ic k) w \<and> mn \<le> length w
        \<and> (case mx of None \<Rightarrow> True | Some n \<Rightarrow> length w \<le> n)
        \<and> y = St (adv (prev x) w) (remaining y) (captures x))"
proof
  assume "matches ic (Rep mn mx g (Chr k)) x y"
  from matches_Rep_Chr_imp [OF this refl assms] show "\<exists>w. remaining x = w @ remaining y \<and> list_all (cls_mem ic k) w \<and> mn \<le> length w
        \<and> (case mx of None \<Rightarrow> True | Some n \<Rightarrow> length w \<le> n)
        \<and> y = St (adv (prev x) w) (remaining y) (captures x)" .
next
  assume "\<exists>w. remaining x = w @ remaining y \<and> list_all (cls_mem ic k) w \<and> mn \<le> length w
        \<and> (case mx of None \<Rightarrow> True | Some n \<Rightarrow> length w \<le> n)
        \<and> y = St (adv (prev x) w) (remaining y) (captures x)"
  then obtain w where w: "remaining x = w @ remaining y" "list_all (cls_mem ic k) w"
    "mn \<le> length w" "case mx of None \<Rightarrow> True | Some n \<Rightarrow> length w \<le> n"
    "y = St (adv (prev x) w) (remaining y) (captures x)" by blast
  from matches_Rep_Chr_conv [OF w(2,3,4), of g "prev x" "remaining y" "captures x"] w(1,5)
  show "matches ic (Rep mn mx g (Chr k)) x y" by (cases x) simp
qed

text \<open>A literal consumes its own characters, compared as the flag says.\<close>

lemma matches_lit:
  "matches ic (lit s) x y \<longleftrightarrow>
     (\<exists>w. remaining x = w @ remaining y \<and> list_all2 (\<lambda>a c. cls_mem ic (Lit a) c) s w
        \<and> y = St (adv (prev x) w) (remaining y) (captures x))"
proof (induction s arbitrary: x)
  case Nil
  show ?case by (cases x) (auto simp: lit_def matches_Eps_iff)
next
  case (Cons a s)
  have "matches ic (lit (a # s)) x y \<longleftrightarrow>
          (\<exists>z. matches ic (Chr (Lit a)) x z \<and> matches ic (lit s) z y)"
    by (simp add: lit_def matches_seqs_Cons)
  also have "\<dots> \<longleftrightarrow> (\<exists>w. remaining x = w @ remaining y
        \<and> list_all2 (\<lambda>a c. cls_mem ic (Lit a) c) (a # s) w
        \<and> y = St (adv (prev x) w) (remaining y) (captures x))" (is "?L \<longleftrightarrow> ?R")
  proof
    assume ?L
    then obtain ch t w where "remaining x = ch # t" "cls_mem ic (Lit a) ch"
      "t = w @ remaining y" "list_all2 (\<lambda>a c. cls_mem ic (Lit a) c) s w"
      "y = St (adv (Some ch) w) (remaining y) (captures x)"
      by (auto simp: matches_Chr_iff Cons.IH)
    then show ?R by (intro exI [of _ "ch # w"]) simp
  next
    assume ?R
    then obtain ch w where w: "remaining x = (ch # w) @ remaining y" "cls_mem ic (Lit a) ch"
      "list_all2 (\<lambda>a c. cls_mem ic (Lit a) c) s w"
      "y = St (adv (prev x) (ch # w)) (remaining y) (captures x)"
      by (auto simp: list_all2_Cons1)
    let ?z = "St (Some ch) (w @ remaining y) (captures x)"
    have "matches ic (Chr (Lit a)) x ?z" using w(1,2) by (auto simp: matches_Chr_iff)
    moreover have "matches ic (lit s) ?z y"
      unfolding Cons.IH using w(3,4) by (intro exI [of _ w]) simp
    ultimately show ?L by blast
  qed
  finally show ?case .
qed

text \<open>Groups are only added, and only those of the pattern.\<close>

fun cap_groups :: "re \<Rightarrow> nat set" where
  "cap_groups (Chr k) = {}"
| "cap_groups (Seq r1 r2) = cap_groups r1 \<union> cap_groups r2"
| "cap_groups (Alt r1 r2) = cap_groups r1 \<union> cap_groups r2"
| "cap_groups (Rep mn mx g r) = cap_groups r"
| "cap_groups (Cap n r) = insert n (cap_groups r)"
| "cap_groups Bol = {}"
| "cap_groups WordB = {}"
| "cap_groups Eps = {}"

lemma matches_captures:
  "matches ic r x y \<Longrightarrow> \<exists>cs. captures y = cs @ captures x \<and> fst ` set cs \<subseteq> cap_groups r"
proof (induction rule: matches.induct)
  case (m_Seq r1 x y r2 z)
  then obtain c1 c2 where "captures y = c1 @ captures x" "fst ` set c1 \<subseteq> cap_groups r1"
    "captures z = c2 @ captures y" "fst ` set c2 \<subseteq> cap_groups r2" by blast
  then show ?case by (intro exI [of _ "c2 @ c1"]) auto
next
  case (m_Rep_iter mx r x y mn g z)
  then obtain c1 c2 where "captures y = c1 @ captures x" "fst ` set c1 \<subseteq> cap_groups r"
    "captures z = c2 @ captures y" "fst ` set c2 \<subseteq> cap_groups r" by auto
  then show ?case by (intro exI [of _ "c2 @ c1"]) auto
next
  case (m_Cap r x y n)
  then obtain c1 where "captures y = c1 @ captures x" "fst ` set c1 \<subseteq> cap_groups r" by blast
  then show ?case
    by (intro exI [of _ "(n, take (length (remaining x) - length (remaining y)) (remaining x)) # c1"])
       auto
qed auto

lemma map_of_captures_other:
  assumes "matches ic r x y" "n \<notin> cap_groups r"
  shows "map_of (captures y) n = map_of (captures x) n"
proof -
  from matches_captures [OF assms(1)] obtain cs where
    cs: "captures y = cs @ captures x" "fst ` set cs \<subseteq> cap_groups r" by blast
  with assms(2) have "n \<notin> fst ` set cs" by blast
  then have "map_of cs n = None" by (simp add: map_of_eq_None_iff)
  with cs(1) show ?thesis by (simp add: map_add_def)
qed

text \<open>What a search returns.\<close>

lemma Matcher_None_iff:
  "Matcher r ic x Some = None \<longleftrightarrow> (\<forall>y. \<not> matches ic r x y)"
proof
  assume none: "Matcher r ic x Some = None"
  show "\<forall>y. \<not> matches ic r x y"
  proof (intro allI notI)
    fix y assume "matches ic r x y"
    from Matcher_complete [OF this refl, of Some] none show False by simp
  qed
next
  assume "\<forall>y. \<not> matches ic r x y"
  then show "Matcher r ic x Some = None"
    using Matcher_sound [of r ic x Some] by (cases "Matcher r ic x Some") auto
qed

lemma Matcher_Some_matches:
  "Matcher r ic x Some = Some z \<Longrightarrow> matches ic r x z"
  using Matcher_sound [of r ic x Some z] by auto

lemma RegExpExec_None_iff:
  "RegExpExec rx p s = None \<longleftrightarrow>
     (\<forall>u v y. s = u @ v \<longrightarrow> \<not> matches (snd rx) (fst rx) (St (adv p u) v []) y)"
proof (induction s arbitrary: p)
  case Nil
  have "RegExpExec rx p [] = None \<longleftrightarrow> Matcher (fst rx) (snd rx) (St p [] []) Some = None"
    by (simp split: option.splits)
  then show ?case by (simp add: Matcher_None_iff)
next
  case (Cons ch s)
  have "RegExpExec rx p (ch # s) = None \<longleftrightarrow>
          Matcher (fst rx) (snd rx) (St p (ch # s) []) Some = None \<and> RegExpExec rx (Some ch) s = None"
    by (auto split: option.splits)
  also have "\<dots> \<longleftrightarrow> (\<forall>y. \<not> matches (snd rx) (fst rx) (St p (ch # s) []) y)
        \<and> (\<forall>u v y. s = u @ v \<longrightarrow> \<not> matches (snd rx) (fst rx) (St (adv (Some ch) u) v []) y)"
    by (simp only: Matcher_None_iff Cons.IH)
  also have "\<dots> \<longleftrightarrow> (\<forall>u v y. ch # s = u @ v \<longrightarrow> \<not> matches (snd rx) (fst rx) (St (adv p u) v []) y)"
    (is "?L \<longleftrightarrow> ?R")
  proof
    assume L: ?L
    show ?R
    proof (intro allI impI)
      fix u v y assume uv: "ch # s = u @ v"
      show "\<not> matches (snd rx) (fst rx) (St (adv p u) v []) y"
      proof (cases u)
        case Nil
        with uv L show ?thesis by auto
      next
        case (Cons c u')
        with uv L show ?thesis by auto
      qed
    qed
  next
    assume R: ?R
    show ?L
    proof (intro conjI allI impI)
      fix y show "\<not> matches (snd rx) (fst rx) (St p (ch # s) []) y"
        using R [rule_format, of "[]" "ch # s" y] by simp
    next
      fix u v y assume "s = u @ v"
      then show "\<not> matches (snd rx) (fst rx) (St (adv (Some ch) u) v []) y"
        using R [rule_format, of "ch # u" v y] by simp
    qed
  qed
  finally show ?case .
qed

lemma RegExpExec_Some:
  "RegExpExec rx p s = Some mt \<Longrightarrow>
     \<exists>u z. s = u @ matched mt @ remaining z
          \<and> matches (snd rx) (fst rx) (St (adv p u) (matched mt @ remaining z) []) z
          \<and> groups mt = captures z"
proof (induction s arbitrary: p)
  case Nil
  then obtain z where z: "Matcher (fst rx) (snd rx) (St p [] []) Some = Some z"
    "mt = Match [] (captures z)" by (auto split: option.splits)
  from Matcher_Some_matches [OF z(1)] have m: "matches (snd rx) (fst rx) (St p [] []) z" .
  from matches_suffix [OF m] have "remaining z = []" by auto
  with m z(2) show ?case by (intro exI [of _ "[]"] exI [of _ z]) simp
next
  case (Cons ch s)
  show ?case
  proof (cases "Matcher (fst rx) (snd rx) (St p (ch # s) []) Some")
    case None
    with Cons.prems have "RegExpExec rx (Some ch) s = Some mt" by simp
    from Cons.IH [OF this] obtain u z where
      "s = u @ matched mt @ remaining z"
      "matches (snd rx) (fst rx) (St (adv (Some ch) u) (matched mt @ remaining z) []) z"
      "groups mt = captures z" by blast
    then show ?thesis by (intro exI [of _ "ch # u"] exI [of _ z]) simp
  next
    case (Some z)
    with Cons.prems have mt: "mt = Match (take (length (ch # s) - length (remaining z)) (ch # s)) (captures z)"
      by simp
    from Matcher_Some_matches [OF Some] have m: "matches (snd rx) (fst rx) (St p (ch # s) []) z" .
    from matches_suffix [OF m] obtain w where w: "ch # s = w @ remaining z" by auto
    then have "matched mt = w" unfolding mt by simp
    with m w mt show ?thesis by (intro exI [of _ "[]"] exI [of _ z]) simp
  qed
qed

section \<open>Running the matcher on a given string\<close>

text \<open>
  The equations of the matcher, restricted to a state given by its constructor and to a
  character given as a literal: with them the simplifier runs a pattern on a concrete
  line step by step and leaves the continuations alone until they are called. The
  congruence rules \<open>frozen\<close> keep it from walking through the line again at every step.
\<close>

declare Matcher.simps [simp del] RegExpExec.simps [simp del]

definition advanced :: "mstate \<Rightarrow> mstate \<Rightarrow> bool" where
  "advanced y x = (length (remaining y) < length (remaining x))"

definition with_capture :: "nat \<Rightarrow> string \<Rightarrow> mstate \<Rightarrow> mstate" where
  "with_capture n r y =
     St (prev y) (remaining y) ((n, take (length r - length (remaining y)) r) # captures y)"

lemma advanced_run:
  "advanced (St p r cs) (St p' [] cs') = False"
  "advanced (St p [] cs) (St p' (c' # r') cs') = True"
  "advanced (St p (c # r) cs) (St p' (c' # r') cs') = advanced (St p r cs) (St p' r' cs')"
  "advanced (St p r cs) (St p' (c' # r) cs') = True"
  by (simp_all add: advanced_def)

lemma with_capture_run:
  "with_capture n r (St p' r' cs') = St p' r' ((n, take (length r - length r') r) # cs')"
  by (simp add: with_capture_def)

lemma Matcher_run:
  "Matcher (Chr k) ic (St p [] cs) c = None"
  "Matcher (Chr k) ic (St p (ch # r) cs) c =
     (if cls_mem ic k ch then c (St (Some ch) r cs) else None)"
  "Matcher (Seq r1 r2) ic (St p r cs) c = Matcher r1 ic (St p r cs) (\<lambda>y. Matcher r2 ic y c)"
  "Matcher (Alt r1 r2) ic (St p r cs) c =
     (case Matcher r1 ic (St p r cs) c of Some z \<Rightarrow> Some z | None \<Rightarrow> Matcher r2 ic (St p r cs) c)"
  "Matcher (Rep mn mx g r1) ic (St p r cs) c = RepeatMatcher (Matcher r1 ic) mn mx g (St p r cs) c"
  "Matcher (Cap n r1) ic (St p r cs) c = Matcher r1 ic (St p r cs) (\<lambda>y. c (with_capture n r y))"
  "Matcher Bol ic (St p r cs) c = (if p = None then c (St p r cs) else None)"
  "Matcher WordB ic (St p [] cs) c = (if IsWordChar p then c (St p [] cs) else None)"
  "Matcher WordB ic (St p (ch # r) cs) c =
     (if IsWordChar p \<noteq> is_word ch then c (St p (ch # r) cs) else None)"
  "Matcher Eps ic (St p r cs) c = c (St p r cs)"
  by (simp_all add: Matcher.simps lookahead_def IsWordChar_def with_capture_def)

lemma RepeatMatcher_run:
  "RepeatMatcher mt mn mx g (St p r cs) c =
     (if mx = Some 0 then c (St p r cs)
      else if mn \<noteq> 0
      then mt (St p r cs)
             (\<lambda>y. if mn = 0 \<and> \<not> advanced y (St p r cs) then None
                  else RepeatMatcher mt (mn - 1) (map_option (\<lambda>n. n - 1) mx) g y c)
      else if \<not> g
      then (case c (St p r cs) of
              Some z \<Rightarrow> Some z
            | None \<Rightarrow>
                mt (St p r cs)
                  (\<lambda>y. if mn = 0 \<and> \<not> advanced y (St p r cs) then None
                       else RepeatMatcher mt (mn - 1) (map_option (\<lambda>n. n - 1) mx) g y c))
      else (case mt (St p r cs)
                  (\<lambda>y. if mn = 0 \<and> \<not> advanced y (St p r cs) then None
                       else RepeatMatcher mt (mn - 1) (map_option (\<lambda>n. n - 1) mx) g y c) of
              Some z \<Rightarrow> Some z
            | None \<Rightarrow> c (St p r cs)))"
  by (subst RepeatMatcher.simps) (simp add: Let_def advanced_def cong: option.case_cong if_cong)

lemma RegExpExec_run:
  "RegExpExec (r, ic) p [] =
     (case Matcher r ic (St p [] []) Some of
        None \<Rightarrow> None
      | Some z \<Rightarrow> Some (Match [] (captures z)))"
  "RegExpExec (r, ic) p (ch # rest) =
     (case Matcher r ic (St p (ch # rest) []) Some of
        None \<Rightarrow> RegExpExec (r, ic) (Some ch) rest
      | Some z \<Rightarrow>
          Some (Match (take (length (ch # rest) - length (remaining z)) (ch # rest)) (captures z)))"
  by (simp_all add: RegExpExec.simps)

lemma frozen:
  "St p r cs = St p r cs"
  "x = x' \<Longrightarrow> Matcher re ic x c = Matcher re ic x' c"
  "RegExpExec rx p s = RegExpExec rx p s"
  "y = y' \<Longrightarrow> x = x' \<Longrightarrow> advanced y x = advanced y' x'"
  "mn = mn' \<Longrightarrow> mx = mx' \<Longrightarrow> x = x' \<Longrightarrow>
     RepeatMatcher mt mn mx g x c = RepeatMatcher mt mn' mx' g x' c"
  by simp_all

lemma char_le_nat: "c \<le> d \<longleftrightarrow> (of_char c :: nat) \<le> of_char d"
  by (simp add: less_eq_char_def)

lemma is_digit_run:
  "is_digit (Char b0 b1 b2 b3 b4 b5 b6 b7) \<longleftrightarrow>
     \<not> b7 \<and> \<not> b6 \<and> b5 \<and> b4 \<and> (\<not> b3 \<or> (\<not> b2 \<and> \<not> b1))"
  unfolding is_digit_def char_le_nat
  by (cases b0; cases b1; cases b2; cases b3; cases b4; cases b5; cases b6; cases b7) simp_all

lemma is_upper_run:
  "is_upper (Char b0 b1 b2 b3 b4 b5 b6 b7) \<longleftrightarrow>
     \<not> b7 \<and> b6 \<and> \<not> b5 \<and> (b0 \<or> b1 \<or> b2 \<or> b3 \<or> b4) \<and> \<not> (b4 \<and> b3 \<and> (b2 \<or> (b1 \<and> b0)))"
  unfolding is_upper_def char_le_nat
  by (cases b0; cases b1; cases b2; cases b3; cases b4; cases b5; cases b6; cases b7) simp_all

lemma is_lower_run:
  "is_lower (Char b0 b1 b2 b3 b4 b5 b6 b7) \<longleftrightarrow>
     \<not> b7 \<and> b6 \<and> b5 \<and> (b0 \<or> b1 \<or> b2 \<or> b3 \<or> b4) \<and> \<not> (b4 \<and> b3 \<and> (b2 \<or> (b1 \<and> b0)))"
  unfolding is_lower_def char_le_nat
  by (cases b0; cases b1; cases b2; cases b3; cases b4; cases b5; cases b6; cases b7) simp_all

lemma class_run:
  "is_word (Char b0 b1 b2 b3 b4 b5 b6 b7) =
     (is_lower (Char b0 b1 b2 b3 b4 b5 b6 b7) \<or> is_upper (Char b0 b1 b2 b3 b4 b5 b6 b7)
      \<or> is_digit (Char b0 b1 b2 b3 b4 b5 b6 b7) \<or> Char b0 b1 b2 b3 b4 b5 b6 b7 = CHR ''_'')"
  "is_space (Char b0 b1 b2 b3 b4 b5 b6 b7) =
     (Char b0 b1 b2 b3 b4 b5 b6 b7
        \<in> set [CHR 0x09, CHR 0x0A, CHR 0x0B, CHR 0x0C, CHR 0x0D, CHR 0x20, CHR 0xA0])"
  "is_line_terminator (Char b0 b1 b2 b3 b4 b5 b6 b7) =
     (Char b0 b1 b2 b3 b4 b5 b6 b7 = CHR 0x0A \<or> Char b0 b1 b2 b3 b4 b5 b6 b7 = CHR 0x0D)"
  "IsWordChar None = False"
  "IsWordChar (Some (Char b0 b1 b2 b3 b4 b5 b6 b7)) = is_word (Char b0 b1 b2 b3 b4 b5 b6 b7)"
  by (simp_all only: is_word_def is_space_def is_line_terminator_def IsWordChar_def option.case)

lemma Canonicalize_run:
  "Canonicalize (Char b0 b1 b2 b3 b4 b5 b6 b7) =
     (if is_lower (Char b0 b1 b2 b3 b4 b5 b6 b7) then Char b0 b1 b2 b3 b4 False b6 b7
      else Char b0 b1 b2 b3 b4 b5 b6 b7)"
proof (cases "is_lower (Char b0 b1 b2 b3 b4 b5 b6 b7)")
  case False
  then show ?thesis by (simp add: Canonicalize_def)
next
  case True
  then have b: "b5" "b6" "\<not> b7"
    by (simp_all add: is_lower_run)
  have "of_char (Char b0 b1 b2 b3 b4 True True False) =
          (32::nat) + of_char (Char b0 b1 b2 b3 b4 False True False)"
    by simp
  then have "char_of (of_char (Char b0 b1 b2 b3 b4 True True False) - (32::nat)) =
          Char b0 b1 b2 b3 b4 False True False"
    by (simp del: of_char_Char)
  with True b show ?thesis by (simp add: Canonicalize_def)
qed

lemmas regex_run =
  Matcher_run RepeatMatcher_run RegExpExec_run advanced_run with_capture_run
  is_digit_run is_upper_run is_lower_run class_run Canonicalize_run cls_mem.simps
  re_match_def re_test_def lit_def

section \<open>Splitting a string\<close>

text \<open>
  \<^verbatim>\<open>text.split(/\r?\n/)\<close>: the separator is tried at each position \<open>q\<close> in turn; a
  match that ends where the last piece ended (\<open>e = p\<close> in the standard: an empty match
  at the start of the current piece) is skipped, any other match closes the current
  piece. \<open>cur\<close> holds the current piece, reversed. The separator of the source has no
  capturing group, so only the pieces are returned.
\<close>

function SplitLoop :: "regexp \<Rightarrow> char option \<Rightarrow> string \<Rightarrow> string \<Rightarrow> string list" where
  "SplitLoop rx p cur [] = [rev cur]"
| "SplitLoop rx p cur (ch # rest) =
     (case Matcher (fst rx) (snd rx) (St p (ch # rest) []) Some of
        None \<Rightarrow> SplitLoop rx (Some ch) (ch # cur) rest
      | Some z \<Rightarrow>
          if length (remaining z) = length (ch # rest) \<and> cur = []
          then SplitLoop rx (Some ch) (ch # cur) rest
          else rev cur # SplitLoop rx (prev z) [] (remaining z))"
  by pat_completeness auto
termination
proof (relation "measures [\<lambda>(rx, p, cur, s). length s, \<lambda>(rx, p, cur, s). length cur]")
  fix rx :: regexp and p cur ch rest z
  assume m: "Matcher (fst rx) (snd rx) (St p (ch # rest) []) Some = Some z"
    and ne: "\<not> (length (remaining z) = length (ch # rest) \<and> cur = [])"
  from Matcher_remaining_le [OF m] have "length (remaining z) \<le> length (ch # rest)" by simp
  with ne show "((rx, prev z, [], remaining z), (rx, p, cur, ch # rest))
    \<in> measures [\<lambda>(rx, p, cur, s). length s, \<lambda>(rx, p, cur, s). length cur]"
    by (cases "length (remaining z) = length (ch # rest)") auto
qed auto

definition js_split :: "regexp \<Rightarrow> string \<Rightarrow> string list" where
  "js_split rx s =
     (if s = [] then (case Matcher (fst rx) (snd rx) (St None [] []) Some of
                        None \<Rightarrow> [[]] | Some z \<Rightarrow> [])
      else SplitLoop rx None [] s)"

section \<open>The patterns of the source\<close>

text \<open>\<^verbatim>\<open>IP_RE = /\b\d{1,3}(?:\.\d{1,3}){3}\b/\<close>\<close>

definition IP_RE :: regexp where
  "IP_RE =
     (seqs [WordB,
            Rep 1 (Some 3) True (Chr Digit),
            Rep 3 (Some 3) True (Seq (Chr (Lit (CHR ''.''))) (Rep 1 (Some 3) True (Chr Digit))),
            WordB],
      False)"

text \<open>\<^verbatim>\<open>STATUS_RE = /\s(\d{3})\s/\<close>\<close>

definition STATUS_RE :: regexp where
  "STATUS_RE = (seqs [Chr Space, Cap 1 (Rep 3 (Some 3) True (Chr Digit)), Chr Space], False)"

text \<open>
  \<^verbatim>\<open>CLF_RE = /^(\S+) \S+ \S+ \[([^\]]+)\] "([A-Z]+) ([^"]*?) [^"]*" (\d{3}) (?:\d+|-) "(?:[^"]*)" "([^"]*)"/\<close>
\<close>

definition CLF_RE :: regexp where
  \<open>CLF_RE =
     (seqs [Bol,
            Cap 1 (plus1 (Chr NonSpace)), lit '' '',
            plus1 (Chr NonSpace), lit '' '',
            plus1 (Chr NonSpace), lit '' ['',
            Cap 2 (plus1 (Chr (NoneOf '']''))), lit ''] "'',
            Cap 3 (plus1 (Chr UpperAZ)), lit '' '',
            Cap 4 (Rep 0 None False (Chr (NoneOf ''"''))), lit '' '',
            star (Chr (NoneOf ''"'')), lit ''" '',
            Cap 5 (Rep 3 (Some 3) True (Chr Digit)), lit '' '',
            Alt (plus1 (Chr Digit)) (lit ''-''), lit '' "'',
            star (Chr (NoneOf ''"'')), lit ''" "'',
            Cap 6 (star (Chr (NoneOf ''"''))), lit ''"''],
      False)\<close>

text \<open>
  \<^verbatim>\<open>SSH_FAILED_RE = /(Failed password|authentication failure|Invalid user|Login incorrect)/i\<close>
\<close>

definition SSH_FAILED_RE :: regexp where
  "SSH_FAILED_RE =
     (Cap 1 (alts [lit ''Failed password'', lit ''authentication failure'',
                   lit ''Invalid user'', lit ''Login incorrect'']),
      True)"

text \<open>
  The pattern of \<^verbatim>\<open>parseApacheDate\<close>:
  \<^verbatim>\<open>/(\d{2})\/(\w{3})\/(\d{4}):(\d{2}):(\d{2}):(\d{2}) ([+-]\d{4})/\<close>
\<close>

definition APACHE_DATE_RE :: regexp where
  "APACHE_DATE_RE =
     (seqs [Cap 1 (Rep 2 (Some 2) True (Chr Digit)), lit ''/'',
            Cap 2 (Rep 3 (Some 3) True (Chr WordChar)), lit ''/'',
            Cap 3 (Rep 4 (Some 4) True (Chr Digit)), lit '':'',
            Cap 4 (Rep 2 (Some 2) True (Chr Digit)), lit '':'',
            Cap 5 (Rep 2 (Some 2) True (Chr Digit)), lit '':'',
            Cap 6 (Rep 2 (Some 2) True (Chr Digit)), lit '' '',
            Cap 7 (Seq (Chr (OneOf ''+-'')) (Rep 4 (Some 4) True (Chr Digit)))],
      False)"

text \<open>
  The user-agent pattern of the generic fallback:
  \<^verbatim>\<open>/"(Mozilla|curl|Wget|Postman|python-requests|Go-http-client|sqlmap).*?"/i\<close>
\<close>

definition UA_RE :: regexp where
  \<open>UA_RE =
     (seqs [lit ''"'',
            Cap 1 (alts [lit ''Mozilla'', lit ''curl'', lit ''Wget'', lit ''Postman'',
                         lit ''python-requests'', lit ''Go-http-client'', lit ''sqlmap'']),
            Rep 0 None False (Chr Dot), lit ''"''],
      True)\<close>

text \<open>\<^verbatim>\<open>/failed login/i\<close>, tested on the raw line during aggregation.\<close>

definition FAILED_LOGIN_RE :: regexp where
  "FAILED_LOGIN_RE = (lit ''failed login'', True)"

text \<open>\<^verbatim>\<open>/curl|wget|postman|python-requests|go-http-client|sqlmap/i\<close>\<close>

definition suspicious_tokens :: "string list" where
  "suspicious_tokens =
     [''curl'', ''wget'', ''postman'', ''python-requests'', ''go-http-client'', ''sqlmap'']"

definition SUSPICIOUS_UA_RE :: regexp where
  "SUSPICIOUS_UA_RE = (alts (map lit suspicious_tokens), True)"

text \<open>\<^verbatim>\<open>/\r?\n/\<close>, the separator of \<^verbatim>\<open>text.split\<close>.\<close>

definition LINE_BREAK_RE :: regexp where
  "LINE_BREAK_RE = (Seq (Rep 0 (Some 1) True (Chr (Lit (CHR 0x0D)))) (Chr (Lit (CHR 0x0A))), False)"

section \<open>Numbers, dates and objects of the runtime\<close>

text \<open>Decimal numerals: \<^verbatim>\<open>parseInt(s, 10)\<close> and the conversion of a number to a string.\<close>

definition digit_val :: "char \<Rightarrow> nat" where
  "digit_val c = of_char c - of_char (CHR ''0'')"

definition dec :: "string \<Rightarrow> nat" where
  "dec s = foldl (\<lambda>n c. 10 * n + digit_val c) 0 s"

definition parseInt :: "string \<Rightarrow> int option" where
  "parseInt s =
     (let t = dropWhile is_space s;
          (neg, u) = (case t of
                        [] \<Rightarrow> (False, [])
                      | c # cs \<Rightarrow> if c = CHR ''-'' then (True, cs)
                                 else if c = CHR ''+'' then (False, cs) else (False, t));
          ds = takeWhile is_digit u
      in if ds = [] then None
         else Some (if neg then - int (dec ds) else int (dec ds)))"

definition digit_char :: "nat \<Rightarrow> char" where
  "digit_char n = ''0123456789'' ! n"

function show_nat :: "nat \<Rightarrow> string" where
  "show_nat n = (if n < 10 then [digit_char n] else show_nat (n div 10) @ [digit_char (n mod 10)])"
  by pat_completeness auto
termination
  by (relation "measure id") auto

declare show_nat.simps [simp del]

definition show_int :: "int \<Rightarrow> string" where
  "show_int i = (if i < 0 then CHR ''-'' # show_nat (nat (- i)) else show_nat (nat i))"

text \<open>
  \<^verbatim>\<open>new Date(iso).getTime()\<close> for the string that \<^verbatim>\<open>parseApacheDate\<close> builds,
  \<^verbatim>\<open>YYYY-MM-DDTHH:mm:ss+HH:mm\<close>: the date-time format of the language standard, with
  the standard's day arithmetic. A string of another shape, or a field out of its bounds
  (month 01 to 12, day 01 to 31, hour 00 to 24, minute and second 00 to 59), gives
  \<open>NaN\<close>; a day beyond the end of its month runs into the next month. Engines differ on
  out-of-bounds fields; no statement below depends on them.
\<close>

datatype time_value = NaN | Time int

definition DayFromYear :: "int \<Rightarrow> int" where
  "DayFromYear y =
     365 * (y - 1970) + (y - 1969) div 4 - (y - 1901) div 100 + (y - 1601) div 400"

definition InLeapYear :: "int \<Rightarrow> bool" where
  "InLeapYear y = (y mod 4 = 0 \<and> (y mod 100 \<noteq> 0 \<or> y mod 400 = 0))"

definition days_before_month :: "int \<Rightarrow> nat \<Rightarrow> int" where
  "days_before_month y mo =
     [0, 31, 59, 90, 120, 151, 181, 212, 243, 273, 304, 334] ! (mo - 1)
       + (if InLeapYear y \<and> 2 < mo then 1 else 0)"

definition MakeDay :: "int \<Rightarrow> nat \<Rightarrow> nat \<Rightarrow> int" where
  "MakeDay y mo d = DayFromYear y + days_before_month y mo + (int d - 1)"

definition substring :: "string \<Rightarrow> nat \<Rightarrow> nat \<Rightarrow> string" where
  "substring s i j = take (j - i) (drop i s)"

definition Date_getTime :: "string \<Rightarrow> time_value" where
  "Date_getTime s =
     (if length s = 25
         \<and> list_all is_digit (substring s 0 4) \<and> substring s 4 5 = ''-''
         \<and> list_all is_digit (substring s 5 7) \<and> substring s 7 8 = ''-''
         \<and> list_all is_digit (substring s 8 10) \<and> substring s 10 11 = ''T''
         \<and> list_all is_digit (substring s 11 13) \<and> substring s 13 14 = '':''
         \<and> list_all is_digit (substring s 14 16) \<and> substring s 16 17 = '':''
         \<and> list_all is_digit (substring s 17 19)
         \<and> (substring s 19 20 = ''+'' \<or> substring s 19 20 = ''-'')
         \<and> list_all is_digit (substring s 20 22) \<and> substring s 22 23 = '':''
         \<and> list_all is_digit (substring s 23 25)
      then
        let y = int (dec (substring s 0 4)); mo = dec (substring s 5 7);
            d = dec (substring s 8 10); h = dec (substring s 11 13);
            mi = dec (substring s 14 16); sec = dec (substring s 17 19);
            zh = dec (substring s 20 22); zm = dec (substring s 23 25);
            off = (if substring s 19 20 = ''-'' then - int (zh * 60 + zm) else int (zh * 60 + zm))
        in if 1 \<le> mo \<and> mo \<le> 12 \<and> 1 \<le> d \<and> d \<le> 31
              \<and> (h \<le> 23 \<or> (h = 24 \<and> mi = 0 \<and> sec = 0)) \<and> mi \<le> 59 \<and> sec \<le> 59
              \<and> zh \<le> 23 \<and> zm \<le> 59
           then Time (MakeDay y mo d * 86400000
                       + (int h * 3600 + int mi * 60 + int sec) * 1000 - off * 60000)
           else NaN
      else NaN)"

text \<open>
  \<^verbatim>\<open>new Date(ts).getHours()\<close> is the hour of the day in the local time zone of the
  machine that runs the analyser. The zone is a parameter: \<open>tza t\<close> is the offset of local
  time from UTC, in milliseconds, at the instant \<open>t\<close>.
\<close>

definition getHours :: "(int \<Rightarrow> int) \<Rightarrow> int \<Rightarrow> int" where
  "getHours tza t = ((t + tza t) div 3600000) mod 24"

text \<open>
  The counters of the analyser are plain objects created by \<^verbatim>\<open>{}\<close>, used as maps from
  strings to numbers. Such an object keeps its own properties in insertion order and
  inherits the members of \<^verbatim>\<open>Object.prototype\<close>. Reading a key that names an inherited
  member gives that member, which is truthy and is no number; adding 1 to it gives a
  string, which is no number either. \<open>NotNumeric\<close> stands for any such value: it is truthy,
  and every numeric comparison with it is false. Writing a key creates or updates an own
  property, except for \<^verbatim>\<open>__proto__\<close>, whose setter ignores a number or a string.
\<close>

datatype jsvalue = Number nat | NotNumeric

type_synonym jsobject = "(string \<times> jsvalue) list"

definition Object_prototype_keys :: "string list" where
  "Object_prototype_keys =
     [''constructor'', ''hasOwnProperty'', ''isPrototypeOf'', ''propertyIsEnumerable'',
      ''toLocaleString'', ''toString'', ''valueOf'', ''__proto__'',
      ''__defineGetter__'', ''__defineSetter__'', ''__lookupGetter__'', ''__lookupSetter__'']"

definition get_prop :: "jsobject \<Rightarrow> string \<Rightarrow> jsvalue option" where
  "get_prop obj k =
     (case map_of obj k of
        Some v \<Rightarrow> Some v
      | None \<Rightarrow> if k \<in> set Object_prototype_keys then Some NotNumeric else None)"

definition set_prop :: "jsobject \<Rightarrow> string \<Rightarrow> jsvalue \<Rightarrow> jsobject" where
  "set_prop obj k v =
     (if k = ''__proto__'' then obj
      else if k \<in> fst ` set obj then map (\<lambda>(k', v'). if k' = k then (k', v) else (k', v')) obj
      else obj @ [(k, v)])"

text \<open>\<^verbatim>\<open>obj[k] = (obj[k] || 0) + 1\<close>\<close>

definition or_zero_plus_one :: "jsvalue option \<Rightarrow> jsvalue" where
  "or_zero_plus_one v =
     (case v of None \<Rightarrow> Number 1 | Some (Number n) \<Rightarrow> Number (n + 1) | Some NotNumeric \<Rightarrow> NotNumeric)"

definition increment :: "jsobject \<Rightarrow> string \<Rightarrow> jsobject" where
  "increment obj k = set_prop obj k (or_zero_plus_one (get_prop obj k))"

text \<open>
  \<^verbatim>\<open>Object.entries\<close> lists the own properties: first the keys that are array indices
  (canonical decimal numerals below \<open>2^32 - 1\<close>) in ascending numeric order, then the
  other keys in insertion order.
\<close>

definition is_array_index :: "string \<Rightarrow> bool" where
  "is_array_index k =
     (k \<noteq> [] \<and> list_all is_digit k \<and> (k = ''0'' \<or> take 1 k \<noteq> ''0'') \<and> dec k < 2 ^ 32 - 1)"

definition Object_entries :: "jsobject \<Rightarrow> (string \<times> jsvalue) list" where
  "Object_entries obj =
     sort_key (\<lambda>kv. dec (fst kv)) (filter (\<lambda>kv. is_array_index (fst kv)) obj)
       @ filter (\<lambda>kv. \<not> is_array_index (fst kv)) obj"

text \<open>\<^verbatim>\<open>key.split(":")\<close>, a split at every occurrence of a separator character.\<close>

fun split_on :: "char \<Rightarrow> string \<Rightarrow> string list" where
  "split_on sep [] = [[]]"
| "split_on sep (c # cs) =
     (if c = sep then [] # split_on sep cs
      else (case split_on sep cs of [] \<Rightarrow> [[c]] | piece # pieces \<Rightarrow> (c # piece) # pieces))"

text \<open>A \<^verbatim>\<open>Set\<close> of strings, in insertion order.\<close>

definition Set_add :: "string list \<Rightarrow> string \<Rightarrow> string list" where
  "Set_add xs x = (if x \<in> set xs then xs else xs @ [x])"

section \<open>The analyser\<close>

record LogEntry =
  raw :: string
  ip :: "string option"
  status :: "int option"
  ts :: "int option"
  method' :: "string option"
  path :: "string option"
  ua :: "string option"
  tags :: "string list"

record Anomaly =
  type :: string
  message :: string
  line :: "string option"

text \<open>
  In a template literal an undefined value prints as \<^verbatim>\<open>undefined\<close>. The month table is
  read with a key of exactly three word characters, which names no inherited member.
\<close>

definition template :: "string option \<Rightarrow> string" where
  "template v = (case v of None \<Rightarrow> ''undefined'' | Some s \<Rightarrow> s)"

definition months :: "(string \<times> string) list" where
  "months =
     [(''Jan'', ''01''), (''Feb'', ''02''), (''Mar'', ''03''), (''Apr'', ''04''),
      (''May'', ''05''), (''Jun'', ''06''), (''Jul'', ''07''), (''Aug'', ''08''),
      (''Sep'', ''09''), (''Oct'', ''10''), (''Nov'', ''11''), (''Dec'', ''12'')]"

text \<open>
  \<^verbatim>\<open>parseApacheDate\<close>: \<open>None\<close> is \<^verbatim>\<open>undefined\<close>. Reading \<^verbatim>\<open>tz.substring\<close> of a missing
  group would throw, and the \<^verbatim>\<open>catch\<close> returns \<^verbatim>\<open>undefined\<close>.
\<close>

definition parseApacheDate :: "string \<Rightarrow> time_value option" where
  "parseApacheDate d =
     (case re_match APACHE_DATE_RE d of
        None \<Rightarrow> None
      | Some mt \<Rightarrow>
          (case group mt 7 of
             None \<Rightarrow> None
           | Some tz \<Rightarrow>
               let iso = template (group mt 3) @ ''-''
                         @ template (Option.bind (group mt 2) (map_of months)) @ ''-''
                         @ template (group mt 1) @ ''T''
                         @ template (group mt 4) @ '':'' @ template (group mt 5) @ '':''
                         @ template (group mt 6) @ take 3 tz @ '':'' @ drop 3 tz
               in Some (Date_getTime iso)))"

text \<open>
  \<^verbatim>\<open>parseLine\<close>. The test \<^verbatim>\<open>if (ts)\<close> keeps a timestamp that is defined, not \<open>NaN\<close>
  and not zero.
\<close>

definition parseLine :: "string \<Rightarrow> LogEntry" where
  "parseLine l =
     (let entry = \<lparr>raw = l, ip = None, status = None, ts = None, method' = None, path = None,
                    ua = None, tags = []\<rparr>
      in case re_match CLF_RE l of
           Some mt \<Rightarrow>
             entry\<lparr>ip := group mt 1,
                   ts := (case Option.bind (group mt 2) parseApacheDate of
                            Some (Time t) \<Rightarrow> if t \<noteq> 0 then Some t else None
                          | _ \<Rightarrow> None),
                   method' := group mt 3,
                   path := group mt 4,
                   status := Option.bind (group mt 5) parseInt,
                   ua := group mt 6\<rparr>
         | None \<Rightarrow>
             if re_test SSH_FAILED_RE l
             then entry\<lparr>ip := map_option matched (re_match IP_RE l),
                        tags := tags entry @ [''failed_login'']\<rparr>
             else entry\<lparr>ip := map_option matched (re_match IP_RE l),
                        status := (case re_match STATUS_RE l of
                                     None \<Rightarrow> None
                                   | Some sm \<Rightarrow> Option.bind (group sm 1) parseInt),
                        ua := map_option matched (re_match UA_RE l)\<rparr>)"

text \<open>
  The local variables of \<^verbatim>\<open>analyzeLogs\<close>; \<open>anoms\<close> is the array \<^verbatim>\<open>anomalies\<close> while it is
  being filled.
\<close>

record locals =
  anoms :: "Anomaly list"
  failedByIP :: jsobject
  errorsByIP :: jsobject
  uaSet :: "string list"
  perMinute :: jsobject
  nightByIP :: jsobject

text \<open>\<^verbatim>\<open>const ip = e.ip || "unknown"\<close>\<close>

definition key_of :: "LogEntry \<Rightarrow> string" where
  "key_of e = (case ip e of None \<Rightarrow> ''unknown'' | Some a \<Rightarrow> if a = [] then ''unknown'' else a)"

definition http_error_codes :: "int list" where
  "http_error_codes = [403, 404, 500, 502, 503]"

text \<open>
  The body of the loop over the entries, in its four blocks: failed logins, HTTP errors,
  user agents, requests per minute with the night-time count.
\<close>

definition count_failed_login :: "locals \<Rightarrow> LogEntry \<Rightarrow> locals" where
  "count_failed_login st e =
     (if ''failed_login'' \<in> set (tags e) \<or> re_test FAILED_LOGIN_RE (raw e)
      then st\<lparr>failedByIP := increment (failedByIP st) (key_of e)\<rparr>
      else st)"

definition count_http_error :: "locals \<Rightarrow> LogEntry \<Rightarrow> locals" where
  "count_http_error st e =
     (case status e of
        None \<Rightarrow> st
      | Some code \<Rightarrow>
          if code \<in> set http_error_codes
          then st\<lparr>errorsByIP := increment (errorsByIP st) (key_of e),
                  anoms := anoms st @
                    [\<lparr>type = ''HTTP Error'',
                      message = ''HTTP '' @ show_int code @ '' from '' @ key_of e,
                      line = Some (raw e)\<rparr>]\<rparr>
          else st)"

definition collect_user_agent :: "locals \<Rightarrow> LogEntry \<Rightarrow> locals" where
  "collect_user_agent st e =
     (case ua e of
        None \<Rightarrow> st
      | Some u \<Rightarrow> if u \<noteq> [] then st\<lparr>uaSet := Set_add (uaSet st) u\<rparr> else st)"

definition count_request :: "(int \<Rightarrow> int) \<Rightarrow> locals \<Rightarrow> LogEntry \<Rightarrow> locals" where
  "count_request tza st e =
     (case (ts e, ip e) of
        (Some t, Some a) \<Rightarrow>
          if t \<noteq> 0 \<and> a \<noteq> []
          then let minuteBucket = t div 60000;
                   key = a @ '':'' @ show_int minuteBucket;
                   st' = st\<lparr>perMinute := increment (perMinute st) key\<rparr>;
                   hour = getHours tza t
               in if 0 \<le> hour \<and> hour < 5
                  then st'\<lparr>nightByIP := increment (nightByIP st') (key_of e)\<rparr>
                  else st'
          else st
      | _ \<Rightarrow> st)"

definition process_entry :: "(int \<Rightarrow> int) \<Rightarrow> locals \<Rightarrow> LogEntry \<Rightarrow> locals" where
  "process_entry tza st e =
     count_request tza (collect_user_agent (count_http_error (count_failed_login st e) e) e) e"

text \<open>The loop over the entries, from empty counters.\<close>

definition aggregate :: "(int \<Rightarrow> int) \<Rightarrow> LogEntry list \<Rightarrow> locals" where
  "aggregate tza es =
     foldl (process_entry tza)
       \<lparr>anoms = [], failedByIP = [], errorsByIP = [], uaSet = [], perMinute = [],
        nightByIP = []\<rparr> es"

text \<open>
  The post-rules. Each loop runs over \<^verbatim>\<open>Object.entries\<close> of a counter and pushes an
  anomaly when the count passes the test; the comparison of a value that is no number is
  false.
\<close>

definition push_if ::
  "(nat \<Rightarrow> bool) \<Rightarrow> (string \<Rightarrow> nat \<Rightarrow> Anomaly) \<Rightarrow> Anomaly list \<Rightarrow> string \<times> jsvalue \<Rightarrow> Anomaly list"
where
  "push_if test mk acc kv =
     (case snd kv of
        Number n \<Rightarrow> if test n then acc @ [mk (fst kv) n] else acc
      | NotNumeric \<Rightarrow> acc)"

definition brute_force :: "string \<Rightarrow> nat \<Rightarrow> Anomaly" where
  "brute_force k n =
     \<lparr>type = ''Brute Force'', message = show_nat n @ '' failed logins from '' @ k, line = None\<rparr>"

definition error_spike :: "string \<Rightarrow> nat \<Rightarrow> Anomaly" where
  "error_spike k n =
     \<lparr>type = ''Error Spike'', message = show_nat n @ '' HTTP errors from '' @ k, line = None\<rparr>"

definition suspicious_ua :: Anomaly where
  "suspicious_ua =
     \<lparr>type = ''Suspicious UA'',
      message = ''Automation/tool user-agents detected (curl/wget/Postman/etc.)'',
      line = None\<rparr>"

definition rate_spike :: "string \<Rightarrow> nat \<Rightarrow> Anomaly" where
  "rate_spike k n =
     \<lparr>type = ''Rate Spike'', message = k @ '' peaked at '' @ show_nat n @ '' req/min'', line = None\<rparr>"

text \<open>
  The dash of the off-hours message is U+2013, outside the range of \<^typ>\<open>char\<close>; it is
  written as the three bytes of its UTF-8 form.
\<close>

definition off_hours :: "string \<Rightarrow> nat \<Rightarrow> Anomaly" where
  "off_hours k n =
     \<lparr>type = ''Off-hours Activity'',
      message = show_nat n @ '' requests between 00:00'' @ [CHR 0xE2, CHR 0x80, CHR 0x93]
                @ ''05:00 from '' @ k,
      line = None\<rparr>"

text \<open>
  \<^verbatim>\<open>const ip = key.split(":")[0]; if (!maxPerIP[ip] || count > maxPerIP[ip]) maxPerIP[ip] = count;\<close>
\<close>

definition max_step :: "jsobject \<Rightarrow> string \<times> jsvalue \<Rightarrow> jsobject" where
  "max_step maxPerIP kv =
     (let k = (case split_on (CHR '':'') (fst kv) of [] \<Rightarrow> ''undefined'' | piece # _ \<Rightarrow> piece)
      in case get_prop maxPerIP k of
           None \<Rightarrow> set_prop maxPerIP k (snd kv)
         | Some (Number n) \<Rightarrow>
             (case snd kv of
                Number c \<Rightarrow> if n = 0 \<or> n < c then set_prop maxPerIP k (snd kv) else maxPerIP
              | NotNumeric \<Rightarrow> if n = 0 then set_prop maxPerIP k (snd kv) else maxPerIP)
         | Some NotNumeric \<Rightarrow> maxPerIP)"

record Result =
  entries :: "LogEntry list"
  anomalies :: "Anomaly list"

definition analyzeLogs :: "(int \<Rightarrow> int) \<Rightarrow> string \<Rightarrow> Result" where
  "analyzeLogs tza txt =
     (let ls = filter (\<lambda>l. l \<noteq> []) (js_split LINE_BREAK_RE txt);
          es = map parseLine ls;
          st = aggregate tza es;
          a1 = foldl (push_if (\<lambda>n. 6 \<le> n) brute_force) (anoms st) (Object_entries (failedByIP st));
          a2 = foldl (push_if (\<lambda>n. 12 \<le> n) error_spike) a1 (Object_entries (errorsByIP st));
          a3 = (if list_ex (re_test SUSPICIOUS_UA_RE) (uaSet st) then a2 @ [suspicious_ua] else a2);
          maxPerIP = foldl max_step [] (Object_entries (perMinute st));
          a4 = foldl (push_if (\<lambda>n. 120 < n) rate_spike) a3 (Object_entries maxPerIP);
          a5 = foldl (push_if (\<lambda>n. 100 \<le> n) off_hours) a4 (Object_entries (nightByIP st))
      in \<lparr>entries = es, anomalies = a5\<rparr>)"

section \<open>Line breaks and literal patterns\<close>

lemma line_break_at:
  "Matcher (fst LINE_BREAK_RE) (snd LINE_BREAK_RE) (St p s []) Some =
     (if take 2 s = [CHR 0x0D, CHR 0x0A] then Some (St (Some (CHR 0x0A)) (drop 2 s) [])
      else if take 1 s = [CHR 0x0A] then Some (St (Some (CHR 0x0A)) (drop 1 s) [])
      else None)"
proof (cases s)
  case Nil
  then show ?thesis
    by (simp add: LINE_BREAK_RE_def Matcher.simps RepeatMatcher.simps Let_def)
next
  case (Cons c cs)
  show ?thesis
  proof (cases cs)
    case Nil
    with Cons show ?thesis
      by (simp add: LINE_BREAK_RE_def Matcher.simps RepeatMatcher.simps Let_def cls_mem.simps)
  next
    case (Cons d ds)
    with \<open>s = c # cs\<close> show ?thesis
      by (simp add: LINE_BREAK_RE_def Matcher.simps RepeatMatcher.simps Let_def cls_mem.simps)
  qed
qed

text \<open>
  The lines of a text: the pieces between line feeds, where a carriage return directly
  before a line feed belongs to the line break. The last piece is what follows the last
  line feed.
\<close>

definition strip_cr :: "string \<Rightarrow> string" where
  "strip_cr l = (if l \<noteq> [] \<and> last l = CHR 0x0D then butlast l else l)"

definition lines_of :: "string \<Rightarrow> string list" where
  "lines_of s =
     (let pieces = split_on (CHR 0x0A) s in map strip_cr (butlast pieces) @ [last pieces])"

lemma split_on_not_Nil [simp]: "split_on sep s \<noteq> []"
  by (induction s) (auto split: list.splits)

lemma lines_of_Nil [simp]: "lines_of [] = [[]]"
  by (simp add: lines_of_def)

lemma lines_of_LF [simp]: "lines_of (CHR 0x0A # s) = [] # lines_of s"
  by (simp add: lines_of_def Let_def strip_cr_def)

lemma lines_of_CRLF [simp]: "lines_of (CHR 0x0D # CHR 0x0A # s) = [] # lines_of s"
  by (simp add: lines_of_def Let_def strip_cr_def)

lemma lines_of_other:
  assumes "c \<noteq> CHR 0x0A" "\<not> (c = CHR 0x0D \<and> take 1 s = [CHR 0x0A])"
  shows "lines_of (c # s) = (case lines_of s of l # ls \<Rightarrow> (c # l) # ls | [] \<Rightarrow> [[c]])"
proof -
  obtain q qs where q: "split_on (CHR 0x0A) s = q # qs" by (cases "split_on (CHR 0x0A) s") auto
  show ?thesis
  proof (cases qs)
    case Nil
    with q assms show ?thesis by (simp add: lines_of_def Let_def)
  next
    case (Cons q' qs')
    have "q = [] \<Longrightarrow> take 1 s = [CHR 0x0A]"
      using q Cons by (cases s) (auto split: if_splits list.splits)
    with assms have "strip_cr (c # q) = c # strip_cr q"
      by (auto simp: strip_cr_def)
    with q Cons assms show ?thesis by (simp add: lines_of_def Let_def)
  qed
qed

lemma lines_of_not_Nil [simp]: "lines_of s \<noteq> []"
  by (simp add: lines_of_def Let_def)

lemma SplitLoop_line_break:
  "SplitLoop LINE_BREAK_RE p cur s = (case lines_of s of l # ls \<Rightarrow> (rev cur @ l) # ls | [] \<Rightarrow> [])"
proof (induction s arbitrary: p cur rule: length_induct)
  case (1 s)
  show ?case
  proof (cases s)
    case Nil
    then show ?thesis by simp
  next
    case (Cons c cs)
    consider (crlf) "take 2 s = [CHR 0x0D, CHR 0x0A]"
      | (lf) "c = CHR 0x0A"
      | (other) "c \<noteq> CHR 0x0A" "\<not> (c = CHR 0x0D \<and> take 1 cs = [CHR 0x0A])"
      using Cons by (cases cs) auto
    then show ?thesis
    proof cases
      case crlf
      then obtain r where s: "s = CHR 0x0D # CHR 0x0A # r"
        using Cons by (cases cs) auto
      have "SplitLoop LINE_BREAK_RE p cur s = rev cur # SplitLoop LINE_BREAK_RE (Some (CHR 0x0A)) [] r"
        unfolding s by (simp add: line_break_at)
      also have "SplitLoop LINE_BREAK_RE (Some (CHR 0x0A)) [] r = lines_of r"
        using 1 [rule_format, of r] s by (simp split: list.splits)
      finally show ?thesis by (simp add: s)
    next
      case lf
      have "SplitLoop LINE_BREAK_RE p cur s = rev cur # SplitLoop LINE_BREAK_RE (Some (CHR 0x0A)) [] cs"
        unfolding Cons lf by (simp add: line_break_at)
      also have "SplitLoop LINE_BREAK_RE (Some (CHR 0x0A)) [] cs = lines_of cs"
        using 1 [rule_format, of cs] Cons by (simp split: list.splits)
      finally show ?thesis by (simp add: Cons lf)
    next
      case other
      have no: "Matcher (fst LINE_BREAK_RE) (snd LINE_BREAK_RE) (St p (c # cs) []) Some = None"
        using other by (cases cs) (auto simp: line_break_at)
      have "SplitLoop LINE_BREAK_RE p cur s = SplitLoop LINE_BREAK_RE (Some c) (c # cur) cs"
        unfolding Cons by (simp add: no)
      also have "\<dots> = (case lines_of cs of l # ls \<Rightarrow> (rev (c # cur) @ l) # ls | [] \<Rightarrow> [])"
        using 1 [rule_format, of cs] Cons by simp
      finally show ?thesis
        by (simp add: Cons lines_of_other [OF other] split: list.splits)
    qed
  qed
qed

lemma js_split_line_break: "js_split LINE_BREAK_RE s = lines_of s"
proof (cases "s = []")
  case True
  then show ?thesis by (simp add: js_split_def line_break_at)
next
  case False
  then show ?thesis
    by (simp add: js_split_def SplitLoop_line_break split: list.splits)
qed

text \<open>Patterns made of literals: a search for them is a search for a substring.\<close>

fun starts_with :: "bool \<Rightarrow> string \<Rightarrow> string \<Rightarrow> bool" where
  "starts_with ic [] s = True"
| "starts_with ic (a # as) [] = False"
| "starts_with ic (a # as) (c # cs) = (if cls_mem ic (Lit a) c then starts_with ic as cs else False)"

fun occurs_in :: "bool \<Rightarrow> string \<Rightarrow> string \<Rightarrow> bool" where
  "occurs_in ic tok [] = starts_with ic tok []"
| "occurs_in ic tok (c # cs) = (if starts_with ic tok (c # cs) then True else occurs_in ic tok cs)"

lemma starts_with_iff:
  "starts_with ic tok s \<longleftrightarrow> (\<exists>w v. s = w @ v \<and> list_all2 (\<lambda>a c. cls_mem ic (Lit a) c) tok w)"
proof (induction ic tok s rule: starts_with.induct)
  case (1 ic s)
  show ?case by simp
next
  case (2 ic a as)
  show ?case by simp
next
  case (3 ic a as c cs)
  show ?case
  proof
    assume "starts_with ic (a # as) (c # cs)"
    with 3 obtain w v where "cls_mem ic (Lit a) c" "cs = w @ v"
      "list_all2 (\<lambda>a c. cls_mem ic (Lit a) c) as w" by (auto split: if_splits)
    then show "\<exists>w v. c # cs = w @ v \<and> list_all2 (\<lambda>a c. cls_mem ic (Lit a) c) (a # as) w"
      by (intro exI [of _ "c # w"] exI [of _ v]) simp
  next
    assume "\<exists>w v. c # cs = w @ v \<and> list_all2 (\<lambda>a c. cls_mem ic (Lit a) c) (a # as) w"
    then obtain w v where "c # cs = w @ v" "list_all2 (\<lambda>a c. cls_mem ic (Lit a) c) (a # as) w"
      by blast
    then obtain w' where "w = c # w'" "cs = w' @ v" "cls_mem ic (Lit a) c"
      "list_all2 (\<lambda>a c. cls_mem ic (Lit a) c) as w'"
      by (auto simp: list_all2_Cons1)
    with 3 show "starts_with ic (a # as) (c # cs)" by auto
  qed
qed

lemma occurs_in_iff:
  "occurs_in ic tok s \<longleftrightarrow> (\<exists>u v. s = u @ v \<and> starts_with ic tok v)"
proof (induction s)
  case Nil
  show ?case by simp
next
  case (Cons c cs)
  show ?case
  proof
    assume "occurs_in ic tok (c # cs)"
    then consider "starts_with ic tok (c # cs)" | "occurs_in ic tok cs"
      by (auto split: if_splits)
    then show "\<exists>u v. c # cs = u @ v \<and> starts_with ic tok v"
    proof cases
      case 1
      then show ?thesis by (intro exI [of _ "[]"] exI [of _ "c # cs"]) simp
    next
      case 2
      with Cons obtain u v where "cs = u @ v" "starts_with ic tok v" by blast
      then show ?thesis by (intro exI [of _ "c # u"] exI [of _ v]) simp
    qed
  next
    assume "\<exists>u v. c # cs = u @ v \<and> starts_with ic tok v"
    then obtain u v where uv: "c # cs = u @ v" "starts_with ic tok v" by blast
    show "occurs_in ic tok (c # cs)"
    proof (cases u)
      case Nil
      with uv have "starts_with ic tok (c # cs)" by simp
      then show ?thesis by simp
    next
      case (Cons c' u')
      with uv have "cs = u' @ v" by simp
      with uv(2) Cons.IH show ?thesis by auto
    qed
  qed
qed

lemma matches_lit_ex:
  "(\<exists>y. matches ic (lit tok) (St p s cs) y) \<longleftrightarrow> starts_with ic tok s"
proof -
  have "(\<exists>y. matches ic (lit tok) (St p s cs) y) \<longleftrightarrow>
          (\<exists>w v. s = w @ v \<and> list_all2 (\<lambda>a c. cls_mem ic (Lit a) c) tok w)"
  proof
    assume "\<exists>y. matches ic (lit tok) (St p s cs) y"
    then obtain y w where "s = w @ remaining y" "list_all2 (\<lambda>a c. cls_mem ic (Lit a) c) tok w"
      by (auto simp: matches_lit)
    then show "\<exists>w v. s = w @ v \<and> list_all2 (\<lambda>a c. cls_mem ic (Lit a) c) tok w" by blast
  next
    assume "\<exists>w v. s = w @ v \<and> list_all2 (\<lambda>a c. cls_mem ic (Lit a) c) tok w"
    then obtain w v where wv: "s = w @ v" "list_all2 (\<lambda>a c. cls_mem ic (Lit a) c) tok w" by blast
    have "matches ic (lit tok) (St p s cs) (St (adv p w) v cs)"
      unfolding matches_lit using wv by (intro exI [of _ w]) simp
    then show "\<exists>y. matches ic (lit tok) (St p s cs) y" by blast
  qed
  then show ?thesis by (simp add: starts_with_iff)
qed

lemma matches_alts_lit_ex:
  assumes "toks \<noteq> []"
  shows "(\<exists>y. matches ic (alts (map lit toks)) (St p s cs) y) \<longleftrightarrow>
           list_ex (\<lambda>tok. starts_with ic tok s) toks"
proof -
  have "(\<exists>y. matches ic (alts (map lit toks)) (St p s cs) y) \<longleftrightarrow>
          (\<exists>tok \<in> set toks. \<exists>y. matches ic (lit tok) (St p s cs) y)"
    using assms by (auto simp: matches_alts list_ex_iff)
  then show ?thesis by (simp add: matches_lit_ex list_ex_iff)
qed

lemma re_test_iff:
  "re_test rx s \<longleftrightarrow> (\<exists>u v y. s = u @ v \<and> matches (snd rx) (fst rx) (St (adv None u) v []) y)"
  by (auto simp: re_test_def re_match_def RegExpExec_None_iff)

lemma re_test_lit:
  "re_test (lit tok, ic) s \<longleftrightarrow> occurs_in ic tok s"
proof -
  have "re_test (lit tok, ic) s \<longleftrightarrow> (\<exists>u v. s = u @ v \<and> (\<exists>y. matches ic (lit tok) (St (adv None u) v []) y))"
    by (auto simp: re_test_iff)
  then show ?thesis by (simp add: matches_lit_ex occurs_in_iff)
qed

lemma re_test_alts_lit:
  assumes "toks \<noteq> []"
  shows "re_test (alts (map lit toks), ic) s \<longleftrightarrow> list_ex (\<lambda>tok. occurs_in ic tok s) toks"
proof -
  have "re_test (alts (map lit toks), ic) s \<longleftrightarrow>
          (\<exists>u v. s = u @ v \<and> (\<exists>y. matches ic (alts (map lit toks)) (St (adv None u) v []) y))"
    by (auto simp: re_test_iff)
  also have "\<dots> \<longleftrightarrow> (\<exists>u v. s = u @ v \<and> list_ex (\<lambda>tok. starts_with ic tok v) toks)"
    by (simp add: matches_alts_lit_ex [OF assms])
  also have "\<dots> \<longleftrightarrow> list_ex (\<lambda>tok. occurs_in ic tok s) toks"
    by (auto simp: list_ex_iff occurs_in_iff)
  finally show ?thesis .
qed

lemma re_test_Cap_alts_lit:
  assumes "toks \<noteq> []"
  shows "re_test (Cap n (alts (map lit toks)), ic) s \<longleftrightarrow> list_ex (\<lambda>tok. occurs_in ic tok s) toks"
proof -
  have "re_test (Cap n (alts (map lit toks)), ic) s \<longleftrightarrow>
          (\<exists>u v. s = u @ v \<and> (\<exists>y. matches ic (alts (map lit toks)) (St (adv None u) v []) y))"
    by (auto simp: re_test_iff matches_Cap_iff)
  also have "\<dots> \<longleftrightarrow> (\<exists>u v. s = u @ v \<and> list_ex (\<lambda>tok. starts_with ic tok v) toks)"
    by (simp add: matches_alts_lit_ex [OF assms])
  also have "\<dots> \<longleftrightarrow> list_ex (\<lambda>tok. occurs_in ic tok s) toks"
    by (auto simp: list_ex_iff occurs_in_iff)
  finally show ?thesis .
qed

lemma re_test_SUSPICIOUS_UA_RE:
  "re_test SUSPICIOUS_UA_RE u \<longleftrightarrow> list_ex (\<lambda>tok. occurs_in True tok u) suspicious_tokens"
  unfolding SUSPICIOUS_UA_RE_def by (rule re_test_alts_lit) (simp add: suspicious_tokens_def)

lemma re_test_FAILED_LOGIN_RE:
  "re_test FAILED_LOGIN_RE s \<longleftrightarrow> occurs_in True ''failed login'' s"
  unfolding FAILED_LOGIN_RE_def by (rule re_test_lit)

lemma re_test_SSH_FAILED_RE:
  "re_test SSH_FAILED_RE s \<longleftrightarrow>
     list_ex (\<lambda>tok. occurs_in True tok s)
       [''Failed password'', ''authentication failure'', ''Invalid user'', ''Login incorrect'']"
  unfolding SSH_FAILED_RE_def
  using re_test_Cap_alts_lit [of "[''Failed password'', ''authentication failure'', ''Invalid user'', ''Login incorrect'']" 1 True s]
  by simp

section \<open>The shape of the anomaly list\<close>

text \<open>
  An entry is an HTTP-error entry when its status is one of 403, 404, 500, 502, 503; its
  anomaly names the status, the address (or \<^verbatim>\<open>unknown\<close>) and the raw line.
\<close>

definition is_http_error :: "LogEntry \<Rightarrow> bool" where
  "is_http_error e = (case status e of None \<Rightarrow> False | Some code \<Rightarrow> code \<in> set http_error_codes)"

definition http_error_of :: "LogEntry \<Rightarrow> Anomaly" where
  "http_error_of e =
     \<lparr>type = ''HTTP Error'',
      message = ''HTTP '' @ (case status e of None \<Rightarrow> [] | Some code \<Rightarrow> show_int code)
                @ '' from '' @ (case ip e of None \<Rightarrow> ''unknown'' | Some a \<Rightarrow> if a = [] then ''unknown'' else a),
      line = Some (raw e)\<rparr>"

lemma anoms_count_failed_login [simp]: "anoms (count_failed_login st e) = anoms st"
  by (simp add: count_failed_login_def)

lemma anoms_count_http_error:
  "anoms (count_http_error st e) = anoms st @ (if is_http_error e then [http_error_of e] else [])"
  by (simp add: count_http_error_def is_http_error_def http_error_of_def key_of_def
           split: option.splits)

lemma anoms_collect_user_agent [simp]: "anoms (collect_user_agent st e) = anoms st"
  by (simp add: collect_user_agent_def split: option.splits)

lemma anoms_count_request [simp]: "anoms (count_request tza st e) = anoms st"
  by (simp add: count_request_def Let_def split: option.splits)

lemma anoms_process_entry:
  "anoms (process_entry tza st e) = anoms st @ (if is_http_error e then [http_error_of e] else [])"
  by (simp add: process_entry_def anoms_count_http_error)

lemma anoms_aggregate_foldl:
  "anoms (foldl (process_entry tza) st es) = anoms st @ map http_error_of (filter is_http_error es)"
  by (induction es arbitrary: st) (simp_all add: anoms_process_entry)

lemma anoms_aggregate:
  "anoms (aggregate tza es) = map http_error_of (filter is_http_error es)"
  by (simp add: aggregate_def anoms_aggregate_foldl)

definition emitted :: "(nat \<Rightarrow> bool) \<Rightarrow> (string \<Rightarrow> nat \<Rightarrow> Anomaly) \<Rightarrow> (string \<times> jsvalue) list \<Rightarrow> Anomaly list" where
  "emitted test mk kvs =
     concat (map (\<lambda>kv. case snd kv of
                          Number n \<Rightarrow> if test n then [mk (fst kv) n] else []
                        | NotNumeric \<Rightarrow> []) kvs)"

lemma foldl_push_if:
  "foldl (push_if test mk) acc kvs = acc @ emitted test mk kvs"
  by (induction kvs arbitrary: acc) (simp_all add: emitted_def push_if_def split: jsvalue.splits)

lemma emitted_type:
  assumes "\<And>k n. type (mk k n) = T"
  shows "list_all (\<lambda>a. type a = T) (emitted test mk kvs)"
  by (induction kvs) (simp_all add: emitted_def assms split: jsvalue.splits)

lemma filter_type_same:
  "list_all (\<lambda>a. type a = T) xs \<Longrightarrow> filter (\<lambda>a. type a = T) xs = xs"
  by (induction xs) simp_all

lemma filter_type_other:
  "list_all (\<lambda>a. type a = T) xs \<Longrightarrow> T \<noteq> T' \<Longrightarrow> filter (\<lambda>a. type a = T') xs = []"
  by (induction xs) auto

lemma http_errors_type:
  "list_all (\<lambda>a. type a = ''HTTP Error'') (map http_error_of es)"
  by (induction es) (simp_all add: http_error_of_def)

definition suspicious_part :: "locals \<Rightarrow> Anomaly list" where
  "suspicious_part st = (if list_ex (re_test SUSPICIOUS_UA_RE) (uaSet st) then [suspicious_ua] else [])"

definition maxPerIP_of :: "locals \<Rightarrow> jsobject" where
  "maxPerIP_of st = foldl max_step [] (Object_entries (perMinute st))"

lemma anomalies_analyzeLogs:
  "anomalies (analyzeLogs tza txt) =
     (let st = aggregate tza (entries (analyzeLogs tza txt)) in
      map http_error_of (filter is_http_error (entries (analyzeLogs tza txt)))
      @ emitted (\<lambda>n. 6 \<le> n) brute_force (Object_entries (failedByIP st))
      @ emitted (\<lambda>n. 12 \<le> n) error_spike (Object_entries (errorsByIP st))
      @ suspicious_part st
      @ emitted (\<lambda>n. 120 < n) rate_spike (Object_entries (maxPerIP_of st))
      @ emitted (\<lambda>n. 100 \<le> n) off_hours (Object_entries (nightByIP st)))"
  by (simp add: analyzeLogs_def Let_def foldl_push_if anoms_aggregate suspicious_part_def
        maxPerIP_of_def)

lemma entries_analyzeLogs:
  "entries (analyzeLogs tza txt) =
     map parseLine (filter (\<lambda>l. l \<noteq> []) (js_split LINE_BREAK_RE txt))"
  by (simp add: analyzeLogs_def Let_def)

lemma parts_types:
  "list_all (\<lambda>a. type a = ''Brute Force'') (emitted t1 brute_force kv1)"
  "list_all (\<lambda>a. type a = ''Error Spike'') (emitted t2 error_spike kv2)"
  "list_all (\<lambda>a. type a = ''Suspicious UA'') (suspicious_part st)"
  "list_all (\<lambda>a. type a = ''Rate Spike'') (emitted t4 rate_spike kv4)"
  "list_all (\<lambda>a. type a = ''Off-hours Activity'') (emitted t5 off_hours kv5)"
  by (simp_all add: emitted_type brute_force_def error_spike_def rate_spike_def off_hours_def
        suspicious_part_def suspicious_ua_def)

lemma filter_parts:
  assumes "list_all (\<lambda>a. type a = ''HTTP Error'') p1"
    and "list_all (\<lambda>a. type a = ''Brute Force'') p2"
    and "list_all (\<lambda>a. type a = ''Error Spike'') p3"
    and "list_all (\<lambda>a. type a = ''Suspicious UA'') p4"
    and "list_all (\<lambda>a. type a = ''Rate Spike'') p5"
    and "list_all (\<lambda>a. type a = ''Off-hours Activity'') p6"
  shows "filter (\<lambda>a. type a = ''HTTP Error'') (p1 @ p2 @ p3 @ p4 @ p5 @ p6) = p1"
    and "filter (\<lambda>a. type a = ''Brute Force'') (p1 @ p2 @ p3 @ p4 @ p5 @ p6) = p2"
    and "filter (\<lambda>a. type a = ''Error Spike'') (p1 @ p2 @ p3 @ p4 @ p5 @ p6) = p3"
    and "filter (\<lambda>a. type a = ''Suspicious UA'') (p1 @ p2 @ p3 @ p4 @ p5 @ p6) = p4"
    and "filter (\<lambda>a. type a = ''Rate Spike'') (p1 @ p2 @ p3 @ p4 @ p5 @ p6) = p5"
    and "filter (\<lambda>a. type a = ''Off-hours Activity'') (p1 @ p2 @ p3 @ p4 @ p5 @ p6) = p6"
  by (simp_all add: assms [THEN filter_type_same] assms [THEN filter_type_other])

lemma filter_anomalies:
  "filter (\<lambda>a. type a = ''HTTP Error'') (anomalies (analyzeLogs tza txt)) =
     map http_error_of (filter is_http_error (entries (analyzeLogs tza txt)))"
  "filter (\<lambda>a. type a = ''Brute Force'') (anomalies (analyzeLogs tza txt)) =
     emitted (\<lambda>n. 6 \<le> n) brute_force
       (Object_entries (failedByIP (aggregate tza (entries (analyzeLogs tza txt)))))"
  "filter (\<lambda>a. type a = ''Error Spike'') (anomalies (analyzeLogs tza txt)) =
     emitted (\<lambda>n. 12 \<le> n) error_spike
       (Object_entries (errorsByIP (aggregate tza (entries (analyzeLogs tza txt)))))"
  "filter (\<lambda>a. type a = ''Suspicious UA'') (anomalies (analyzeLogs tza txt)) =
     suspicious_part (aggregate tza (entries (analyzeLogs tza txt)))"
  "filter (\<lambda>a. type a = ''Rate Spike'') (anomalies (analyzeLogs tza txt)) =
     emitted (\<lambda>n. 120 < n) rate_spike
       (Object_entries (maxPerIP_of (aggregate tza (entries (analyzeLogs tza txt)))))"
  "filter (\<lambda>a. type a = ''Off-hours Activity'') (anomalies (analyzeLogs tza txt)) =
     emitted (\<lambda>n. 100 \<le> n) off_hours
       (Object_entries (nightByIP (aggregate tza (entries (analyzeLogs tza txt)))))"
  unfolding anomalies_analyzeLogs Let_def
  by (rule filter_parts [OF http_errors_type parts_types])+

section \<open>The counters after the loop\<close>

text \<open>
  Each counter of the loop is the result of incrementing, from the empty object, the keys
  of the entries that its block counts, in input order.
\<close>

definition failed_login_entry :: "LogEntry \<Rightarrow> bool" where
  "failed_login_entry e = (''failed_login'' \<in> set (tags e) \<or> re_test FAILED_LOGIN_RE (raw e))"

definition user_agent :: "LogEntry \<Rightarrow> string option" where
  "user_agent e = (case ua e of None \<Rightarrow> None | Some u \<Rightarrow> if u \<noteq> [] then Some u else None)"

definition minute_key :: "LogEntry \<Rightarrow> string option" where
  "minute_key e =
     (case (ts e, ip e) of
        (Some t, Some a) \<Rightarrow>
          if t \<noteq> 0 \<and> a \<noteq> [] then Some (a @ '':'' @ show_int (t div 60000)) else None
      | _ \<Rightarrow> None)"

definition night_entry :: "(int \<Rightarrow> int) \<Rightarrow> LogEntry \<Rightarrow> bool" where
  "night_entry tza e =
     (case (ts e, ip e) of
        (Some t, Some a) \<Rightarrow> t \<noteq> 0 \<and> a \<noteq> [] \<and> 0 \<le> getHours tza t \<and> getHours tza t < 5
      | _ \<Rightarrow> False)"

definition bump :: "jsobject \<Rightarrow> string option \<Rightarrow> jsobject" where
  "bump obj k = (case k of None \<Rightarrow> obj | Some k' \<Rightarrow> increment obj k')"

lemma count_failed_login_fields:
  "failedByIP (count_failed_login st e) =
     (if failed_login_entry e then increment (failedByIP st) (key_of e) else failedByIP st)"
  "errorsByIP (count_failed_login st e) = errorsByIP st"
  "uaSet (count_failed_login st e) = uaSet st"
  "perMinute (count_failed_login st e) = perMinute st"
  "nightByIP (count_failed_login st e) = nightByIP st"
  by (simp_all add: count_failed_login_def failed_login_entry_def)

lemma count_http_error_fields:
  "failedByIP (count_http_error st e) = failedByIP st"
  "errorsByIP (count_http_error st e) =
     (if is_http_error e then increment (errorsByIP st) (key_of e) else errorsByIP st)"
  "uaSet (count_http_error st e) = uaSet st"
  "perMinute (count_http_error st e) = perMinute st"
  "nightByIP (count_http_error st e) = nightByIP st"
  by (simp_all add: count_http_error_def is_http_error_def split: option.splits)

lemma collect_user_agent_fields:
  "failedByIP (collect_user_agent st e) = failedByIP st"
  "errorsByIP (collect_user_agent st e) = errorsByIP st"
  "uaSet (collect_user_agent st e) =
     (case user_agent e of None \<Rightarrow> uaSet st | Some u \<Rightarrow> Set_add (uaSet st) u)"
  "perMinute (collect_user_agent st e) = perMinute st"
  "nightByIP (collect_user_agent st e) = nightByIP st"
  by (simp_all add: collect_user_agent_def user_agent_def split: option.splits)

lemma count_request_fields:
  "failedByIP (count_request tza st e) = failedByIP st"
  "errorsByIP (count_request tza st e) = errorsByIP st"
  "uaSet (count_request tza st e) = uaSet st"
  "perMinute (count_request tza st e) = bump (perMinute st) (minute_key e)"
  "nightByIP (count_request tza st e) =
     (if night_entry tza e then increment (nightByIP st) (key_of e) else nightByIP st)"
  by (simp_all add: count_request_def minute_key_def night_entry_def bump_def Let_def
        split: option.splits)

lemma process_entry_fields:
  "failedByIP (process_entry tza st e) =
     (if failed_login_entry e then increment (failedByIP st) (key_of e) else failedByIP st)"
  "errorsByIP (process_entry tza st e) =
     (if is_http_error e then increment (errorsByIP st) (key_of e) else errorsByIP st)"
  "uaSet (process_entry tza st e) =
     (case user_agent e of None \<Rightarrow> uaSet st | Some u \<Rightarrow> Set_add (uaSet st) u)"
  "perMinute (process_entry tza st e) = bump (perMinute st) (minute_key e)"
  "nightByIP (process_entry tza st e) =
     (if night_entry tza e then increment (nightByIP st) (key_of e) else nightByIP st)"
  by (simp_all only: process_entry_def count_failed_login_fields count_http_error_fields
        collect_user_agent_fields count_request_fields)

lemma foldl_process_entry_fields:
  "failedByIP (foldl (process_entry tza) st es) =
     foldl increment (failedByIP st) (map key_of (filter failed_login_entry es))"
  "errorsByIP (foldl (process_entry tza) st es) =
     foldl increment (errorsByIP st) (map key_of (filter is_http_error es))"
  "uaSet (foldl (process_entry tza) st es) =
     foldl Set_add (uaSet st) (List.map_filter user_agent es)"
  "perMinute (foldl (process_entry tza) st es) =
     foldl increment (perMinute st) (List.map_filter minute_key es)"
  "nightByIP (foldl (process_entry tza) st es) =
     foldl increment (nightByIP st) (map key_of (filter (night_entry tza) es))"
  by (induction es arbitrary: st;
      simp add: process_entry_fields bump_def List.map_filter_simps split: option.splits)+

lemma aggregate_fields:
  "failedByIP (aggregate tza es) = foldl increment [] (map key_of (filter failed_login_entry es))"
  "errorsByIP (aggregate tza es) = foldl increment [] (map key_of (filter is_http_error es))"
  "uaSet (aggregate tza es) = foldl Set_add [] (List.map_filter user_agent es)"
  "perMinute (aggregate tza es) = foldl increment [] (List.map_filter minute_key es)"
  "nightByIP (aggregate tza es) = foldl increment [] (map key_of (filter (night_entry tza) es))"
  by (simp_all add: aggregate_def foldl_process_entry_fields)

text \<open>Counting one key again and again.\<close>

lemma increment_own:
  "increment [(k, v)] k = (if k = ''__proto__'' then [(k, v)] else [(k, or_zero_plus_one (Some v))])"
  by (simp add: increment_def set_prop_def get_prop_def)

lemma foldl_increment_Number:
  "k \<noteq> ''__proto__'' \<Longrightarrow>
   foldl increment [(k, Number m)] (replicate n k) = [(k, Number (m + n))]"
  by (induction n arbitrary: m) (simp_all add: increment_own or_zero_plus_one_def)

lemma foldl_increment_NotNumeric:
  "foldl increment [(k, NotNumeric)] (replicate n k) = [(k, NotNumeric)]"
proof -
  have "increment [(k, NotNumeric)] k = [(k, NotNumeric)]"
    by (simp add: increment_own or_zero_plus_one_def)
  then show ?thesis by (induction n) simp_all
qed

lemma foldl_increment_replicate:
  assumes "k \<notin> set Object_prototype_keys"
  shows "foldl increment [] (replicate (Suc n) k) = [(k, Number (Suc n))]"
proof -
  from assms have k: "k \<noteq> ''__proto__''" by (auto simp: Object_prototype_keys_def)
  with assms have "increment [] k = [(k, Number 1)]"
    by (simp add: increment_def set_prop_def get_prop_def or_zero_plus_one_def)
  with k show ?thesis by (simp add: foldl_increment_Number)
qed

lemma foldl_increment_replicate_inherited:
  assumes "k \<in> set Object_prototype_keys" "k \<noteq> ''__proto__''"
  shows "foldl increment [] (replicate (Suc n) k) = [(k, NotNumeric)]"
proof -
  from assms have "increment [] k = [(k, NotNumeric)]"
    by (simp add: increment_def set_prop_def get_prop_def or_zero_plus_one_def)
  then show ?thesis by (simp add: foldl_increment_NotNumeric)
qed

section \<open>The first field of a combined-format line\<close>

lemma cap_groups_seqs [simp]: "cap_groups (seqs rs) = (\<Union>r \<in> set rs. cap_groups r)"
  by (induction rs rule: seqs.induct) auto

lemma cap_groups_alts [simp]: "cap_groups (alts rs) = (\<Union>r \<in> set rs. cap_groups r)"
  by (induction rs rule: alts.induct) auto

lemma cap_groups_lit [simp]: "cap_groups (lit s) = {}"
  by (simp add: lit_def)

text \<open>
  A pattern that starts with \<^verbatim>\<open>^\<close>, a group over a run of one character class and a
  literal character: the group holds the run, which starts the string.
\<close>

lemma first_group:
  assumes m: "matches ic (Seq Bol (Seq (Cap n (Rep mn mx g (Chr k))) (Seq (Chr (Lit sp)) rs)))
                 (St p l []) z"
    and n: "n \<notin> cap_groups rs"
    and bound: "case mx of None \<Rightarrow> True | Some b \<Rightarrow> mn \<le> b"
  shows "\<exists>a c rest. l = a @ c # rest \<and> cls_mem ic (Lit sp) c \<and> list_all (cls_mem ic k) a
           \<and> mn \<le> length a \<and> map_of (captures z) n = Some a"
proof -
  from m have "\<exists>y1. matches ic Bol (St p l []) y1 \<and>
          (\<exists>y2. matches ic (Cap n (Rep mn mx g (Chr k))) y1 y2 \<and>
             (\<exists>y3. matches ic (Chr (Lit sp)) y2 y3 \<and> matches ic rs y3 z))"
    by (simp only: matches_Seq_iff)
  then obtain y1 y2 y3 where
    1: "matches ic Bol (St p l []) y1" and
    2: "matches ic (Cap n (Rep mn mx g (Chr k))) y1 y2" and
    3: "matches ic (Chr (Lit sp)) y2 y3" and
    4: "matches ic rs y3 z"
    by blast
  from 1 have y1: "y1 = St p l []" by (simp add: matches_Bol_iff)
  from 2 obtain y where y: "matches ic (Rep mn mx g (Chr k)) y1 y"
    and y2: "y2 = St (prev y) (remaining y)
               ((n, take (length (remaining y1) - length (remaining y)) (remaining y1)) # captures y)"
    by (auto simp: matches_Cap_iff)
  from y obtain a where a: "remaining y1 = a @ remaining y" "list_all (cls_mem ic k) a"
    "mn \<le> length a" "captures y = captures y1"
    unfolding matches_Rep_Chr [OF bound] by (metis mstate.sel(3))
  from a(1) have take: "take (length (remaining y1) - length (remaining y)) (remaining y1) = a"
    by simp
  from 3 obtain c rest where c: "remaining y2 = c # rest" "cls_mem ic (Lit sp) c"
    and y3: "captures y3 = captures y2"
    by (auto simp: matches_Chr_iff)
  have "map_of (captures z) n = map_of (captures y3) n"
    using 4 n by (rule map_of_captures_other)
  also have "\<dots> = Some a" by (simp add: y3 y2 take)
  finally have "map_of (captures z) n = Some a" .
  moreover have "l = a @ c # rest" using a(1) c(1) y1 y2 by simp
  ultimately show ?thesis using c(2) a(2,3) by blast
qed

lemma CLF_first_field:
  assumes "re_match CLF_RE l = Some mt"
  shows "\<exists>a rest. l = a @ CHR '' '' # rest \<and> a \<noteq> [] \<and> list_all (\<lambda>c. \<not> is_space c) a
           \<and> group mt 1 = Some a"
proof -
  have ic: "snd CLF_RE = False" by (simp add: CLF_RE_def)
  from assms have "RegExpExec CLF_RE None l = Some mt" by (simp add: re_match_def)
  from RegExpExec_Some [OF this] obtain u z where
    l: "l = u @ matched mt @ remaining z" and
    m: "matches False (fst CLF_RE) (St (adv None u) (matched mt @ remaining z) []) z" and
    g: "groups mt = captures z"
    unfolding ic by blast
  from m have "matches False Bol (St (adv None u) (matched mt @ remaining z) []) (St (adv None u) (matched mt @ remaining z) [])"
    by (auto simp: CLF_RE_def matches_Seq_iff matches_Bol_iff)
  then have "u = []" by (auto simp: matches_Bol_iff adv_def split: if_splits)
  with l m have m': "matches False (fst CLF_RE) (St None l []) z" by simp
  have "\<exists>a c rest. l = a @ c # rest \<and> cls_mem False (Lit (CHR '' '')) c
          \<and> list_all (cls_mem False NonSpace) a \<and> Suc 0 \<le> length a
          \<and> map_of (captures z) (Suc 0) = Some a"
    by (rule first_group [OF m' [simplified CLF_RE_def lit_def, simplified]]) simp_all
  then obtain a c rest where "l = a @ c # rest" "cls_mem False (Lit (CHR '' '')) c"
    "list_all (cls_mem False NonSpace) a" "Suc 0 \<le> length a"
    "map_of (captures z) (Suc 0) = Some a"
    by blast
  then show ?thesis
    by (intro exI [of _ a] exI [of _ rest]) (auto simp: cls_mem.simps group_def g list_all_iff)
qed

section \<open>Sample lines\<close>

definition ssh_line :: string where
  "ssh_line = ''Jan  1 00:00:00 host sshd[1]: Failed password for root from 10.0.0.5 port 22 ssh2''"

lemma ssh_line_CLF: "re_match CLF_RE ssh_line = None"
  unfolding ssh_line_def by (simp add: regex_run CLF_RE_def cong: frozen)

lemma ssh_line_SSH: "re_test SSH_FAILED_RE ssh_line"
  unfolding ssh_line_def by (simp add: regex_run SSH_FAILED_RE_def cong: frozen)

lemma ssh_line_IP: "re_match IP_RE ssh_line = Some (Match ''10.0.0.5'' [])"
  unfolding ssh_line_def by (simp add: regex_run IP_RE_def cong: frozen)

lemma ssh_line_failed_login: "\<not> re_test FAILED_LOGIN_RE ssh_line"
  unfolding ssh_line_def by (simp add: regex_run FAILED_LOGIN_RE_def cong: frozen)

lemma parseLine_ssh_line:
  "parseLine ssh_line =
     \<lparr>raw = ssh_line, ip = Some ''10.0.0.5'', status = None, ts = None, method' = None,
      path = None, ua = None, tags = [''failed_login'']\<rparr>"
  by (simp add: parseLine_def ssh_line_CLF ssh_line_SSH ssh_line_IP)

definition clf_404_line :: string where
  \<open>clf_404_line =
     ''10.0.0.1 - - [10/Oct/2000:13:55:36 -0700] "GET /x HTTP/1.0" 404 7 "-" "curl/7.68.0"''\<close>

lemma clf_404_line_CLF:
  \<open>re_match CLF_RE clf_404_line =
     Some (Match clf_404_line
       [(6, ''curl/7.68.0''), (5, ''404''), (4, ''/x''), (3, ''GET''),
        (2, ''10/Oct/2000:13:55:36 -0700''), (1, ''10.0.0.1'')])\<close>
  unfolding clf_404_line_def by (simp add: regex_run CLF_RE_def cong: frozen)

lemma date_2000: "parseApacheDate ''10/Oct/2000:13:55:36 -0700'' = Some (Time 971211336000)"
proof -
  have "re_match APACHE_DATE_RE ''10/Oct/2000:13:55:36 -0700'' =
          Some (Match ''10/Oct/2000:13:55:36 -0700''
            [(7, ''-0700''), (6, ''36''), (5, ''55''), (4, ''13''), (3, ''2000''), (2, ''Oct''), (1, ''10'')])"
    by (simp add: regex_run APACHE_DATE_RE_def cong: frozen)
  then show ?thesis
    by (simp add: parseApacheDate_def group_def template_def months_def Date_getTime_def
          substring_def dec_def digit_val_def MakeDay_def DayFromYear_def days_before_month_def
          InLeapYear_def is_digit_run Let_def)
qed

lemma parseLine_clf_404_line:
  "parseLine clf_404_line =
     \<lparr>raw = clf_404_line, ip = Some ''10.0.0.1'', status = Some 404, ts = Some 971211336000,
      method' = Some ''GET'', path = Some ''/x'', ua = Some ''curl/7.68.0'', tags = []\<rparr>"
  by (simp add: parseLine_def clf_404_line_CLF group_def date_2000 parseInt_def dec_def digit_val_def
        class_run is_digit_run)

section \<open>Texts of one line and of a repeated line\<close>

lemma split_on_no_sep: "sep \<notin> set l \<Longrightarrow> split_on sep l = [l]"
  by (induction l) auto

lemma split_on_append:
  "sep \<notin> set l \<Longrightarrow> split_on sep (l @ sep # s) = l # split_on sep s"
  by (induction l) auto

lemma lines_of_one_line: "CHR 0x0A \<notin> set l \<Longrightarrow> lines_of l = [l]"
  by (simp add: lines_of_def split_on_no_sep)

lemma lines_of_append:
  "CHR 0x0A \<notin> set l \<Longrightarrow> lines_of (l @ CHR 0x0A # s) = strip_cr l # lines_of s"
  by (simp add: lines_of_def split_on_append Let_def)

text \<open>The text made of \<open>n\<close> copies of a line, each ended by a line feed.\<close>

definition repeated :: "nat \<Rightarrow> string \<Rightarrow> string" where
  "repeated n l = concat (replicate n (l @ [CHR 0x0A]))"

lemma lines_of_repeated:
  assumes "CHR 0x0A \<notin> set l" "strip_cr l = l"
  shows "lines_of (repeated n l) = replicate n l @ [[]]"
  by (induction n) (simp_all add: repeated_def lines_of_append assms)

lemma entries_one_line:
  assumes "CHR 0x0A \<notin> set l" "l \<noteq> []"
  shows "entries (analyzeLogs tza l) = [parseLine l]"
  by (simp add: entries_analyzeLogs js_split_line_break lines_of_one_line assms)

lemma entries_repeated:
  assumes "CHR 0x0A \<notin> set l" "strip_cr l = l" "l \<noteq> []"
  shows "entries (analyzeLogs tza (repeated n l)) = replicate n (parseLine l)"
  by (simp add: entries_analyzeLogs js_split_line_break lines_of_repeated assms)

section \<open>One entry for each line\<close>

lemma raw_parseLine [simp]: "raw (parseLine l) = l"
  by (simp add: parseLine_def Let_def split: option.splits)

text \<open>
  Claim C1. The analyser is a total function: it gives a result for every input text. The
  entries are the non-empty lines of the text, one entry for each in the order of the text,
  where a line ends at a line feed or at a carriage return followed by a line feed; so the
  number of entries is the number of non-empty lines. For the empty text both the entries
  and the anomalies are empty.
\<close>

theorem one_entry_per_nonempty_line:
  "map raw (entries (analyzeLogs tza txt)) = filter (\<lambda>l. l \<noteq> []) (lines_of txt)
   \<and> length (entries (analyzeLogs tza txt)) = length (filter (\<lambda>l. l \<noteq> []) (lines_of txt))
   \<and> analyzeLogs tza [] = \<lparr>entries = [], anomalies = []\<rparr>"
proof -
  have e: "entries (analyzeLogs tza txt) = map parseLine (filter (\<lambda>l. l \<noteq> []) (lines_of txt))"
    by (simp add: entries_analyzeLogs js_split_line_break)
  have "map raw (entries (analyzeLogs tza txt)) = filter (\<lambda>l. l \<noteq> []) (lines_of txt)"
    unfolding e by (simp add: comp_def)
  moreover have "length (entries (analyzeLogs tza txt)) = length (filter (\<lambda>l. l \<noteq> []) (lines_of txt))"
    unfolding e by simp
  moreover have "analyzeLogs tza [] = \<lparr>entries = [], anomalies = []\<rparr>"
    by (simp add: analyzeLogs_def js_split_line_break aggregate_def Object_entries_def)
  ultimately show ?thesis by blast
qed

section \<open>HTTP-error anomalies\<close>

lemma show_nat_numeral:
  "show_nat (numeral k) =
     (if numeral k < (10::nat) then [digit_char (numeral k)]
      else show_nat (numeral k div 10) @ [digit_char (numeral k mod 10)])"
  by (rule show_nat.simps)

lemma show_nat_small: "show_nat 0 = ''0''" "show_nat (Suc 0) = ''1''"
  by (simp_all add: show_nat.simps digit_char_def)

lemmas show_run = show_int_def show_nat_numeral show_nat_small digit_char_def

lemma parseInt_404: "parseInt ''404'' = Some 404"
  by (simp add: parseInt_def dec_def digit_val_def is_digit_run class_run)

lemma clf_404_line_no_LF: "CHR 0x0A \<notin> set clf_404_line" "clf_404_line \<noteq> []"
  by (simp_all add: clf_404_line_def)

text \<open>
  Claim C3. The anomalies of type HTTP Error are those of the entries whose status is one
  of 403, 404, 500, 502, 503, one for each such entry and in the order of the entries;
  an entry without status or with another status contributes none. The anomaly of an
  entry with an address has the message \<^verbatim>\<open>HTTP <status> from <address>\<close> and carries the
  raw line. In particular a line in combined format whose status field is 404 is such an
  entry, and its anomaly names 404 and the first field of the line, which is its address.
\<close>

theorem http_error_anomalies:
  "filter (\<lambda>a. type a = ''HTTP Error'') (anomalies (analyzeLogs tza txt)) =
     map http_error_of (filter is_http_error (entries (analyzeLogs tza txt)))
   \<and> (is_http_error e \<longleftrightarrow> (\<exists>code. status e = Some code \<and> code \<in> {403, 404, 500, 502, 503}))
   \<and> (\<forall>code a. status e = Some code \<longrightarrow> ip e = Some a \<longrightarrow> a \<noteq> [] \<longrightarrow>
         http_error_of e =
           \<lparr>type = ''HTTP Error'', message = ''HTTP '' @ show_int code @ '' from '' @ a,
            line = Some (raw e)\<rparr>)
   \<and> (\<forall>mt. re_match CLF_RE l = Some mt \<longrightarrow> group mt 5 = Some ''404'' \<longrightarrow>
         is_http_error (parseLine l) \<and>
         (\<exists>a rest. l = a @ CHR '' '' # rest \<and> a \<noteq> [] \<and> ip (parseLine l) = Some a \<and>
            http_error_of (parseLine l) =
              \<lparr>type = ''HTTP Error'', message = ''HTTP 404 from '' @ a, line = Some l\<rparr>))"
proof (intro conjI allI impI)
  show "filter (\<lambda>a. type a = ''HTTP Error'') (anomalies (analyzeLogs tza txt)) =
          map http_error_of (filter is_http_error (entries (analyzeLogs tza txt)))"
    by (rule filter_anomalies(1))
  show "is_http_error e \<longleftrightarrow> (\<exists>code. status e = Some code \<and> code \<in> {403, 404, 500, 502, 503})"
    by (auto simp: is_http_error_def http_error_codes_def split: option.splits)
next
  fix code a
  assume "status e = Some code" "ip e = Some a" "a \<noteq> []"
  then show "http_error_of e =
      \<lparr>type = ''HTTP Error'', message = ''HTTP '' @ show_int code @ '' from '' @ a,
       line = Some (raw e)\<rparr>"
    by (simp add: http_error_of_def)
next
  fix mt
  assume m: "re_match CLF_RE l = Some mt" and g: "group mt 5 = Some ''404''"
  from m g have st: "status (parseLine l) = Some 404"
    by (simp add: parseLine_def Let_def parseInt_404)
  from m have ip: "ip (parseLine l) = group mt 1"
    by (simp add: parseLine_def Let_def)
  from st show "is_http_error (parseLine l)"
    by (simp add: is_http_error_def http_error_codes_def)
  from CLF_first_field [OF m] obtain a rest where
    a: "l = a @ CHR '' '' # rest" "a \<noteq> []" "group mt 1 = Some a"
    by blast
  have "http_error_of (parseLine l) =
          \<lparr>type = ''HTTP Error'', message = ''HTTP 404 from '' @ a, line = Some l\<rparr>"
    using a(2,3) by (simp add: http_error_of_def st ip show_run)
  with a ip show "\<exists>a rest. l = a @ CHR '' '' # rest \<and> a \<noteq> [] \<and> ip (parseLine l) = Some a \<and>
      http_error_of (parseLine l) =
        \<lparr>type = ''HTTP Error'', message = ''HTTP 404 from '' @ a, line = Some l\<rparr>"
    by auto
qed

theorem http_error_anomalies_witness:
  "re_match CLF_RE clf_404_line \<noteq> None
   \<and> Option.bind (re_match CLF_RE clf_404_line) (\<lambda>mt. group mt 5) = Some ''404''
   \<and> status (parseLine clf_404_line) = Some 404
   \<and> ip (parseLine clf_404_line) = Some ''10.0.0.1''
   \<and> filter (\<lambda>a. type a = ''HTTP Error'') (anomalies (analyzeLogs (\<lambda>t. 0) clf_404_line)) =
       [\<lparr>type = ''HTTP Error'', message = ''HTTP 404 from 10.0.0.1'', line = Some clf_404_line\<rparr>]"
  using http_error_anomalies [of "\<lambda>t. 0" clf_404_line "parseLine clf_404_line" clf_404_line]
  by (simp add: entries_one_line clf_404_line_no_LF clf_404_line_CLF group_def
        parseLine_clf_404_line show_run)

section \<open>The suspicious user agents\<close>

lemma set_foldl_Set_add: "set (foldl Set_add xs ys) = set xs \<union> set ys"
  by (induction ys arbitrary: xs) (auto simp: Set_add_def)

lemma set_map_filter_eq: "set (List.map_filter f xs) = {y. \<exists>x \<in> set xs. f x = Some y}"
  by (induction xs) (auto simp: List.map_filter_simps split: option.splits)

lemma user_agent_eq_Some: "user_agent e = Some u \<longleftrightarrow> ua e = Some u \<and> u \<noteq> []"
  by (auto simp: user_agent_def split: option.splits)

lemma set_uaSet:
  "set (uaSet (aggregate tza es)) = {u. u \<noteq> [] \<and> (\<exists>e \<in> set es. ua e = Some u)}"
  by (auto simp: aggregate_fields set_foldl_Set_add set_map_filter_eq user_agent_eq_Some)

text \<open>
  A string names a tool when one of the six tokens occurs in it, letter case apart.
\<close>

definition names_tool :: "string \<Rightarrow> bool" where
  "names_tool u = list_ex (\<lambda>tok. occurs_in True tok u) suspicious_tokens"

lemma occurs_in_ci:
  "occurs_in True tok u \<longleftrightarrow>
     (\<exists>x w y. u = x @ w @ y \<and> map Canonicalize w = map Canonicalize tok)"
proof -
  have eq: "list_all2 (\<lambda>a c. cls_mem True (Lit a) c) tok w \<longleftrightarrow>
              map Canonicalize w = map Canonicalize tok" for w
    by (induction tok arbitrary: w)
       (auto simp: list_all2_Cons1 cls_mem.simps)
  show ?thesis
    unfolding occurs_in_iff starts_with_iff eq by auto
qed

lemma names_tool_Nil: "\<not> names_tool []"
  by (simp add: names_tool_def suspicious_tokens_def)

lemma suspicious_part_iff:
  "suspicious_part (aggregate tza es) =
     (if list_ex (\<lambda>e. case ua e of None \<Rightarrow> False | Some u \<Rightarrow> names_tool u) es
      then [suspicious_ua] else [])"
proof -
  have "list_ex (re_test SUSPICIOUS_UA_RE) (uaSet (aggregate tza es)) \<longleftrightarrow>
          (\<exists>u. u \<noteq> [] \<and> (\<exists>e \<in> set es. ua e = Some u) \<and> names_tool u)"
    by (auto simp: list_ex_iff set_uaSet re_test_SUSPICIOUS_UA_RE names_tool_def)
  also have "\<dots> \<longleftrightarrow> list_ex (\<lambda>e. case ua e of None \<Rightarrow> False | Some u \<Rightarrow> names_tool u) es"
  proof -
    have "names_tool u \<Longrightarrow> u \<noteq> []" for u using names_tool_Nil by auto
    then show ?thesis by (fastforce simp: list_ex_iff split: option.splits)
  qed
  finally show ?thesis by (simp add: suspicious_part_def)
qed

section \<open>More sample lines\<close>

definition constructor_login_line :: string where
  \<open>constructor_login_line =
     ''constructor - - [10/Oct/2000:13:55:36 -0700] "GET /failed login HTTP/1.0" 200 1 "-" "-"''\<close>

lemma constructor_login_line_CLF:
  \<open>re_match CLF_RE constructor_login_line =
     Some (Match constructor_login_line
       [(6, ''-''), (5, ''200''), (4, ''/failed''), (3, ''GET''),
        (2, ''10/Oct/2000:13:55:36 -0700''), (1, ''constructor'')])\<close>
  unfolding constructor_login_line_def by (simp add: regex_run CLF_RE_def cong: frozen)

lemma parseInt_200: "parseInt ''200'' = Some 200"
  by (simp add: parseInt_def dec_def digit_val_def is_digit_run class_run)

lemma parseLine_constructor_login_line:
  "parseLine constructor_login_line =
     \<lparr>raw = constructor_login_line, ip = Some ''constructor'', status = Some 200,
      ts = Some 971211336000, method' = Some ''GET'', path = Some ''/failed'', ua = Some ''-'',
      tags = []\<rparr>"
  by (simp add: parseLine_def constructor_login_line_CLF group_def date_2000 parseInt_200)

lemma constructor_login_line_failed_login: "re_test FAILED_LOGIN_RE constructor_login_line"
  unfolding constructor_login_line_def by (simp add: regex_run FAILED_LOGIN_RE_def cong: frozen)

lemma constructor_login_line_shape:
  "CHR 0x0A \<notin> set constructor_login_line" "strip_cr constructor_login_line = constructor_login_line"
  "constructor_login_line \<noteq> []"
  by (simp_all add: constructor_login_line_def strip_cr_def)

definition constructor_line :: string where
  \<open>constructor_line =
     ''constructor - - [10/Oct/2000:13:55:36 -0700] "GET /x HTTP/1.0" 200 7 "-" "-"''\<close>

lemma constructor_line_CLF:
  \<open>re_match CLF_RE constructor_line =
     Some (Match constructor_line
       [(6, ''-''), (5, ''200''), (4, ''/x''), (3, ''GET''),
        (2, ''10/Oct/2000:13:55:36 -0700''), (1, ''constructor'')])\<close>
  unfolding constructor_line_def by (simp add: regex_run CLF_RE_def cong: frozen)

lemma parseLine_constructor_line:
  "parseLine constructor_line =
     \<lparr>raw = constructor_line, ip = Some ''constructor'', status = Some 200,
      ts = Some 971211336000, method' = Some ''GET'', path = Some ''/x'', ua = Some ''-'',
      tags = []\<rparr>"
  by (simp add: parseLine_def constructor_line_CLF group_def date_2000 parseInt_200)

lemma constructor_line_failed_login: "\<not> re_test FAILED_LOGIN_RE constructor_line"
  unfolding constructor_line_def by (simp add: regex_run FAILED_LOGIN_RE_def cong: frozen)

lemma constructor_line_shape:
  "CHR 0x0A \<notin> set constructor_line" "strip_cr constructor_line = constructor_line"
  "constructor_line \<noteq> []"
  by (simp_all add: constructor_line_def strip_cr_def)

definition ipv6_line :: string where
  \<open>ipv6_line =
     ''2001:db8::1 - - [10/Oct/2000:13:55:36 -0700] "GET /x HTTP/1.0" 200 7 "-" "-"''\<close>



lemma ipv6_line_failed_login: "\<not> re_test FAILED_LOGIN_RE ipv6_line"
  unfolding ipv6_line_def by (simp add: regex_run FAILED_LOGIN_RE_def cong: frozen)


definition epoch_line :: string where
  \<open>epoch_line =
     ''10.0.0.1 - - [01/Jan/1970:00:00:00 +0000] "GET /x HTTP/1.0" 200 7 "-" "-"''\<close>

lemma epoch_line_CLF:
  \<open>re_match CLF_RE epoch_line =
     Some (Match epoch_line
       [(6, ''-''), (5, ''200''), (4, ''/x''), (3, ''GET''),
        (2, ''01/Jan/1970:00:00:00 +0000''), (1, ''10.0.0.1'')])\<close>
  unfolding epoch_line_def by (simp add: regex_run CLF_RE_def cong: frozen)

lemma date_1970: "parseApacheDate ''01/Jan/1970:00:00:00 +0000'' = Some (Time 0)"
proof -
  have "re_match APACHE_DATE_RE ''01/Jan/1970:00:00:00 +0000'' =
          Some (Match ''01/Jan/1970:00:00:00 +0000''
            [(7, ''+0000''), (6, ''00''), (5, ''00''), (4, ''00''), (3, ''1970''), (2, ''Jan''), (1, ''01'')])"
    by (simp add: regex_run APACHE_DATE_RE_def cong: frozen)
  then show ?thesis
    by (simp add: parseApacheDate_def group_def template_def months_def Date_getTime_def
          substring_def dec_def digit_val_def MakeDay_def DayFromYear_def days_before_month_def
          InLeapYear_def is_digit_run Let_def)
qed

lemma parseLine_epoch_line:
  "parseLine epoch_line =
     \<lparr>raw = epoch_line, ip = Some ''10.0.0.1'', status = Some 200,
      ts = None, method' = Some ''GET'', path = Some ''/x'', ua = Some ''-'',
      tags = []\<rparr>"
  by (simp add: parseLine_def epoch_line_CLF group_def date_1970 parseInt_200)

definition localhost_line :: string where
  \<open>localhost_line =
     ''localhost - - [10/Oct/2000:13:55:36 -0700] "GET /x HTTP/1.0" 200 7 "-" "-"''\<close>

lemma localhost_line_CLF:
  \<open>re_match CLF_RE localhost_line =
     Some (Match localhost_line
       [(6, ''-''), (5, ''200''), (4, ''/x''), (3, ''GET''),
        (2, ''10/Oct/2000:13:55:36 -0700''), (1, ''localhost'')])\<close>
  unfolding localhost_line_def by (simp add: regex_run CLF_RE_def cong: frozen)

lemma localhost_line_IP: "re_match IP_RE localhost_line = None"
  unfolding localhost_line_def by (simp add: regex_run IP_RE_def cong: frozen)

definition status_only_line :: string where
  "status_only_line = ''x 404 y''"

lemma parseLine_status_only_line:
  "parseLine status_only_line =
     \<lparr>raw = status_only_line, ip = None, status = Some 404, ts = None, method' = None,
      path = None, ua = None, tags = []\<rparr>"
proof -
  have "re_match CLF_RE ''x 404 y'' = None"
    by (simp add: regex_run CLF_RE_def cong: frozen)
  moreover have "\<not> re_test SSH_FAILED_RE ''x 404 y''"
    by (simp add: regex_run SSH_FAILED_RE_def cong: frozen)
  moreover have "re_match IP_RE ''x 404 y'' = None"
    by (simp add: regex_run IP_RE_def cong: frozen)
  moreover have "re_match STATUS_RE ''x 404 y'' = Some (Match '' 404 '' [(1, ''404'')])"
    by (simp add: regex_run STATUS_RE_def cong: frozen)
  moreover have "re_match UA_RE ''x 404 y'' = None"
    by (simp add: regex_run UA_RE_def cong: frozen)
  ultimately show ?thesis
    by (simp add: parseLine_def status_only_line_def group_def parseInt_404)
qed

lemma status_only_line_failed_login: "\<not> re_test FAILED_LOGIN_RE status_only_line"
  unfolding status_only_line_def by (simp add: regex_run FAILED_LOGIN_RE_def cong: frozen)

lemma status_only_line_shape:
  "CHR 0x0A \<notin> set status_only_line" "status_only_line \<noteq> []"
  by (simp_all add: status_only_line_def)

lemma ssh_line_shape:
  "CHR 0x0A \<notin> set ssh_line" "strip_cr ssh_line = ssh_line" "ssh_line \<noteq> []"
  by (simp_all add: ssh_line_def strip_cr_def)

section \<open>The analysis of a repeated line\<close>

lemma map_filter_replicate:
  "List.map_filter f (replicate n x) = (case f x of None \<Rightarrow> [] | Some y \<Rightarrow> replicate n y)"
  by (induction n) (auto simp: List.map_filter_simps split: option.splits)

lemma foldl_increment_own_key:
  assumes "0 < n" "k \<notin> set Object_prototype_keys"
  shows "foldl increment [] (replicate n k) = [(k, Number n)]"
  using assms foldl_increment_replicate [of k "n - 1"] by simp

lemma foldl_increment_inherited_key:
  assumes "0 < n" "k \<in> set Object_prototype_keys" "k \<noteq> ''__proto__''"
  shows "foldl increment [] (replicate n k) = [(k, NotNumeric)]"
  using assms foldl_increment_replicate_inherited [of k "n - 1"] by simp

lemma foldl_Set_add_replicate: "0 < n \<Longrightarrow> foldl Set_add [] (replicate n u) = [u]"
proof (induction n)
  case 0
  then show ?case by simp
next
  case (Suc n)
  have "foldl Set_add [u] (replicate m u) = [u]" for m
    by (induction m) (simp_all add: Set_add_def)
  moreover have "Set_add [] u = [u]" by (simp add: Set_add_def)
  ultimately show ?case by simp
qed

lemma aggregate_replicate:
  "failedByIP (aggregate tza (replicate n e)) =
     (if failed_login_entry e then foldl increment [] (replicate n (key_of e)) else [])"
  "errorsByIP (aggregate tza (replicate n e)) =
     (if is_http_error e then foldl increment [] (replicate n (key_of e)) else [])"
  "uaSet (aggregate tza (replicate n e)) =
     (case user_agent e of None \<Rightarrow> [] | Some u \<Rightarrow> foldl Set_add [] (replicate n u))"
  "perMinute (aggregate tza (replicate n e)) =
     (case minute_key e of None \<Rightarrow> [] | Some k \<Rightarrow> foldl increment [] (replicate n k))"
  "nightByIP (aggregate tza (replicate n e)) =
     (if night_entry tza e then foldl increment [] (replicate n (key_of e)) else [])"
  by (simp_all add: aggregate_fields map_filter_replicate split: option.splits)

lemma bucket_2000: "show_int 16186855 = ''16186855''"
  by (simp add: show_run)

lemma dash_not_suspicious: "\<not> re_test SUSPICIOUS_UA_RE ''-''"
  by (simp add: re_test_SUSPICIOUS_UA_RE suspicious_tokens_def cls_mem.simps)

lemma Object_entries_one: "Object_entries [kv] = [kv]"
  by (simp add: Object_entries_def)

lemma emitted_simps:
  "emitted test mk [] = []"
  "emitted test mk [(k, NotNumeric)] = []"
  "emitted test mk [(k, Number n)] = (if test n then [mk k n] else [])"
  by (simp_all add: emitted_def)

lemma Object_entries_Nil: "Object_entries [] = []"
  by (simp add: Object_entries_def)

text \<open>Six failed logins from the host \<^verbatim>\<open>constructor\<close>.\<close>

lemma entry_constructor_login_line:
  "failed_login_entry (parseLine constructor_login_line)"
  "\<not> is_http_error (parseLine constructor_login_line)"
  "user_agent (parseLine constructor_login_line) = Some ''-''"
  "minute_key (parseLine constructor_login_line) = Some ''constructor:16186855''"
  "key_of (parseLine constructor_login_line) = ''constructor''"
  by (simp_all add: failed_login_entry_def constructor_login_line_failed_login
        parseLine_constructor_login_line is_http_error_def http_error_codes_def user_agent_def
        minute_key_def bucket_2000 key_of_def)

lemma max_step_constructor:
  "max_step [] (''constructor:16186855'', Number n) = []"
  by (simp add: max_step_def get_prop_def Object_prototype_keys_def)

lemma anomalies_constructor_login:
  "anomalies (analyzeLogs tza (repeated 6 constructor_login_line)) = []"
proof -
  let ?e = "parseLine constructor_login_line"
  have es: "entries (analyzeLogs tza (repeated 6 constructor_login_line)) = replicate 6 ?e"
    by (simp add: entries_repeated constructor_login_line_shape)
  have proto: "''constructor'' \<in> set Object_prototype_keys" "''constructor'' \<noteq> ''__proto__''"
    "''constructor:16186855'' \<notin> set Object_prototype_keys"
    by (simp_all add: Object_prototype_keys_def)
  have f: "failedByIP (aggregate tza (replicate 6 ?e)) = [(''constructor'', NotNumeric)]"
    by (simp add: aggregate_replicate entry_constructor_login_line
          foldl_increment_inherited_key proto)
  have h: "errorsByIP (aggregate tza (replicate 6 ?e)) = []"
    by (simp add: aggregate_replicate entry_constructor_login_line)
  have u: "uaSet (aggregate tza (replicate 6 ?e)) = [''-'']"
    by (simp add: aggregate_replicate entry_constructor_login_line foldl_Set_add_replicate)
  have p: "perMinute (aggregate tza (replicate 6 ?e)) = [(''constructor:16186855'', Number 6)]"
    by (simp add: aggregate_replicate entry_constructor_login_line foldl_increment_own_key proto)
  have n: "nightByIP (aggregate tza (replicate 6 ?e)) =
             (if night_entry tza ?e then [(''constructor'', NotNumeric)] else [])"
    by (simp add: aggregate_replicate entry_constructor_login_line
          foldl_increment_inherited_key proto)
  show ?thesis
    unfolding anomalies_analyzeLogs es Let_def
    by (simp add: f h u p n entry_constructor_login_line Object_entries_one Object_entries_Nil
          emitted_simps suspicious_part_def dash_not_suspicious maxPerIP_of_def max_step_constructor)
qed

section \<open>The anomaly list from the lines of the text\<close>

lemma lines_repeated:
  assumes "CHR 0x0A \<notin> set l" "strip_cr l = l" "l \<noteq> []"
  shows "filter (\<lambda>l. l \<noteq> []) (lines_of (repeated n l)) = replicate n l"
  by (simp add: lines_of_repeated assms)

lemma list_ex_replicate: "list_ex P (replicate n x) \<longleftrightarrow> 0 < n \<and> P x"
  by (auto simp: list_ex_iff)

lemma names_tool_curl: "names_tool ''curl/7.68.0''"
  by (simp add: names_tool_def suspicious_tokens_def cls_mem.simps Canonicalize_run)

lemma clf_404_line_shape:
  "CHR 0x0A \<notin> set clf_404_line" "strip_cr clf_404_line = clf_404_line" "clf_404_line \<noteq> []"
  by (simp_all add: clf_404_line_def strip_cr_def)

text \<open>
  A line that every rule counts: a request at 01:55 UTC with status 404, sent by curl, whose
  text holds the words \<^verbatim>\<open>failed login\<close>.
\<close>

definition busy_line :: string where
  \<open>busy_line =
     ''10.0.0.1 - - [10/Oct/2000:01:55:36 +0000] "GET /failed login HTTP/1.0" 404 7 "-" "curl/7.68.0"''\<close>

lemma busy_line_CLF:
  \<open>re_match CLF_RE busy_line =
     Some (Match busy_line
       [(6, ''curl/7.68.0''), (5, ''404''), (4, ''/failed''), (3, ''GET''),
        (2, ''10/Oct/2000:01:55:36 +0000''), (1, ''10.0.0.1'')])\<close>
  unfolding busy_line_def by (simp add: regex_run CLF_RE_def cong: frozen)

lemma date_2000_night: "parseApacheDate ''10/Oct/2000:01:55:36 +0000'' = Some (Time 971142936000)"
proof -
  have "re_match APACHE_DATE_RE ''10/Oct/2000:01:55:36 +0000'' =
          Some (Match ''10/Oct/2000:01:55:36 +0000''
            [(7, ''+0000''), (6, ''36''), (5, ''55''), (4, ''01''), (3, ''2000''), (2, ''Oct''), (1, ''10'')])"
    by (simp add: regex_run APACHE_DATE_RE_def cong: frozen)
  then show ?thesis
    by (simp add: parseApacheDate_def group_def template_def months_def Date_getTime_def
          substring_def dec_def digit_val_def MakeDay_def DayFromYear_def days_before_month_def
          InLeapYear_def is_digit_run Let_def)
qed

lemma parseLine_busy_line:
  "parseLine busy_line =
     \<lparr>raw = busy_line, ip = Some ''10.0.0.1'', status = Some 404, ts = Some 971142936000,
      method' = Some ''GET'', path = Some ''/failed'', ua = Some ''curl/7.68.0'', tags = []\<rparr>"
  by (simp add: parseLine_def busy_line_CLF group_def date_2000_night parseInt_404)

lemma busy_line_failed_login: "re_test FAILED_LOGIN_RE busy_line"
  unfolding busy_line_def by (simp add: regex_run FAILED_LOGIN_RE_def cong: frozen)

lemma busy_line_shape:
  "CHR 0x0A \<notin> set busy_line" "strip_cr busy_line = busy_line" "busy_line \<noteq> []"
  by (simp_all add: busy_line_def strip_cr_def)

lemma bucket_2000_night: "show_int 16185715 = ''16185715''"
  by (simp add: show_run)

lemma entry_busy_line:
  "failed_login_entry (parseLine busy_line)"
  "is_http_error (parseLine busy_line)"
  "ua (parseLine busy_line) = Some ''curl/7.68.0''"
  "minute_key (parseLine busy_line) = Some ''10.0.0.1:16185715''"
  "key_of (parseLine busy_line) = ''10.0.0.1''"
  "night_entry (\<lambda>t. 0) (parseLine busy_line)"
  "http_error_of (parseLine busy_line) =
     \<lparr>type = ''HTTP Error'', message = ''HTTP 404 from 10.0.0.1'', line = Some busy_line\<rparr>"
  by (simp_all add: failed_login_entry_def busy_line_failed_login parseLine_busy_line
        is_http_error_def http_error_codes_def minute_key_def bucket_2000_night key_of_def
        night_entry_def getHours_def http_error_of_def show_run)

lemma max_step_address:
  "max_step [] (''10.0.0.1:16185715'', Number n) = [(''10.0.0.1'', Number n)]"
  by (simp add: max_step_def get_prop_def set_prop_def Object_prototype_keys_def)

lemma own_keys:
  "''10.0.0.1'' \<notin> set Object_prototype_keys" "''10.0.0.1:16185715'' \<notin> set Object_prototype_keys"
  by (simp_all add: Object_prototype_keys_def)

text \<open>
  Claim C2. The anomaly list is the concatenation of six segments, in this order: the
  HTTP-error anomalies of the entries in input order; the Brute Force anomalies, one for
  each key of the failed-login counter whose count is at least 6; the Error Spike
  anomalies, one for each key of the error counter whose count is at least 12; the
  Suspicious UA anomaly if a user agent names a tool; the Rate Spike anomalies, one for
  each address whose highest count in one minute exceeds 120; the Off-hours anomalies,
  one for each key of the night counter whose count is at least 100. The entries are
  those of the non-empty lines of the text, and each counter is filled from them in
  input order. Every anomaly of a segment has the type of its segment.
\<close>

theorem anomalies_in_rule_order:
  "anomalies (analyzeLogs tza txt) =
     (let es = map parseLine (filter (\<lambda>l. l \<noteq> []) (lines_of txt)) in
        map http_error_of (filter is_http_error es)
      @ emitted (\<lambda>n. 6 \<le> n) brute_force
          (Object_entries (foldl increment [] (map key_of (filter failed_login_entry es))))
      @ emitted (\<lambda>n. 12 \<le> n) error_spike
          (Object_entries (foldl increment [] (map key_of (filter is_http_error es))))
      @ (if list_ex (\<lambda>e. case ua e of None \<Rightarrow> False | Some u \<Rightarrow> names_tool u) es
         then [suspicious_ua] else [])
      @ emitted (\<lambda>n. 120 < n) rate_spike
          (Object_entries
             (foldl max_step [] (Object_entries (foldl increment [] (List.map_filter minute_key es)))))
      @ emitted (\<lambda>n. 100 \<le> n) off_hours
          (Object_entries (foldl increment [] (map key_of (filter (night_entry tza) es)))))
   \<and> list_all (\<lambda>a. type a = ''HTTP Error'') (map http_error_of es')
   \<and> list_all (\<lambda>a. type a = ''Brute Force'') (emitted t1 brute_force kv1)
   \<and> list_all (\<lambda>a. type a = ''Error Spike'') (emitted t2 error_spike kv2)
   \<and> type suspicious_ua = ''Suspicious UA''
   \<and> list_all (\<lambda>a. type a = ''Rate Spike'') (emitted t4 rate_spike kv4)
   \<and> list_all (\<lambda>a. type a = ''Off-hours Activity'') (emitted t5 off_hours kv5)"
proof -
  have es: "entries (analyzeLogs tza txt) = map parseLine (filter (\<lambda>l. l \<noteq> []) (lines_of txt))"
    by (simp add: entries_analyzeLogs js_split_line_break)
  have "anomalies (analyzeLogs tza txt) =
     (let es = map parseLine (filter (\<lambda>l. l \<noteq> []) (lines_of txt)) in
        map http_error_of (filter is_http_error es)
      @ emitted (\<lambda>n. 6 \<le> n) brute_force
          (Object_entries (foldl increment [] (map key_of (filter failed_login_entry es))))
      @ emitted (\<lambda>n. 12 \<le> n) error_spike
          (Object_entries (foldl increment [] (map key_of (filter is_http_error es))))
      @ (if list_ex (\<lambda>e. case ua e of None \<Rightarrow> False | Some u \<Rightarrow> names_tool u) es
         then [suspicious_ua] else [])
      @ emitted (\<lambda>n. 120 < n) rate_spike
          (Object_entries
             (foldl max_step [] (Object_entries (foldl increment [] (List.map_filter minute_key es)))))
      @ emitted (\<lambda>n. 100 \<le> n) off_hours
          (Object_entries (foldl increment [] (map key_of (filter (night_entry tza) es)))))"
    unfolding anomalies_analyzeLogs es Let_def suspicious_part_iff maxPerIP_of_def aggregate_fields
    by (rule refl)
  moreover have "type suspicious_ua = ''Suspicious UA''"
    by (simp add: suspicious_ua_def)
  ultimately show ?thesis
    using http_errors_type [of es'] parts_types(1) [of t1 kv1] parts_types(2) [of t2 kv2]
      parts_types(4) [of t4 kv4] parts_types(5) [of t5 kv5]
    by (simp only: simp_thms)
qed

theorem anomalies_in_rule_order_witness:
  "anomalies (analyzeLogs (\<lambda>t. 0) (repeated 121 busy_line)) =
     replicate 121
       \<lparr>type = ''HTTP Error'', message = ''HTTP 404 from 10.0.0.1'', line = Some busy_line\<rparr>
     @ [\<lparr>type = ''Brute Force'', message = ''121 failed logins from 10.0.0.1'', line = None\<rparr>,
        \<lparr>type = ''Error Spike'', message = ''121 HTTP errors from 10.0.0.1'', line = None\<rparr>,
        \<lparr>type = ''Suspicious UA'',
         message = ''Automation/tool user-agents detected (curl/wget/Postman/etc.)'',
         line = None\<rparr>,
        \<lparr>type = ''Rate Spike'', message = ''10.0.0.1 peaked at 121 req/min'', line = None\<rparr>,
        \<lparr>type = ''Off-hours Activity'',
         message = ''121 requests between 00:00'' @ [CHR 0xE2, CHR 0x80, CHR 0x93]
                   @ ''05:00 from 10.0.0.1'',
         line = None\<rparr>]"
  using anomalies_in_rule_order [of "\<lambda>t. 0" "repeated 121 busy_line"]
  by (simp add: lines_repeated busy_line_shape Let_def entry_busy_line map_filter_replicate
        list_ex_replicate names_tool_curl foldl_increment_own_key own_keys Object_entries_one
        emitted_simps max_step_address brute_force_def error_spike_def suspicious_ua_def
        rate_spike_def off_hours_def show_run)

section \<open>One anomaly for all suspicious user agents\<close>

lemma ssh_line_no_tool:
  "(case ua (parseLine ssh_line) of None \<Rightarrow> False | Some u \<Rightarrow> names_tool u) = False"
  by (simp add: parseLine_ssh_line)

text \<open>
  Claim C6. There is exactly one anomaly of type Suspicious UA, with a fixed message,
  when the user agent of the entry of some non-empty line of the text names one of the
  tools curl, wget, postman, python-requests, go-http-client, sqlmap, letter case apart;
  otherwise there is none. The number does not depend on how many lines, user agents or
  addresses are concerned: a line whose user agent is \<^verbatim>\<open>curl/7.68.0\<close>, given once or any
  number of times, yields the one anomaly.
\<close>

theorem one_suspicious_ua_anomaly:
  "filter (\<lambda>a. type a = ''Suspicious UA'') (anomalies (analyzeLogs tza txt)) =
     (if list_ex (\<lambda>l. case ua (parseLine l) of None \<Rightarrow> False | Some u \<Rightarrow> names_tool u)
           (filter (\<lambda>l. l \<noteq> []) (lines_of txt))
      then [\<lparr>type = ''Suspicious UA'',
             message = ''Automation/tool user-agents detected (curl/wget/Postman/etc.)'',
             line = None\<rparr>]
      else [])
   \<and> (names_tool u \<longleftrightarrow>
        (\<exists>tok \<in> set [''curl'', ''wget'', ''postman'', ''python-requests'', ''go-http-client'',
                       ''sqlmap''].
           \<exists>x w y. u = x @ w @ y \<and> map Canonicalize w = map Canonicalize tok))
   \<and> ua (parseLine clf_404_line) = Some ''curl/7.68.0''
   \<and> (\<forall>n. filter (\<lambda>a. type a = ''Suspicious UA'')
              (anomalies (analyzeLogs tza (repeated (Suc n) clf_404_line))) =
            [\<lparr>type = ''Suspicious UA'',
              message = ''Automation/tool user-agents detected (curl/wget/Postman/etc.)'',
              line = None\<rparr>])"
proof -
  have general: "filter (\<lambda>a. type a = ''Suspicious UA'') (anomalies (analyzeLogs tza t)) =
     (if list_ex (\<lambda>l. case ua (parseLine l) of None \<Rightarrow> False | Some u \<Rightarrow> names_tool u)
           (filter (\<lambda>l. l \<noteq> []) (lines_of t))
      then [\<lparr>type = ''Suspicious UA'',
             message = ''Automation/tool user-agents detected (curl/wget/Postman/etc.)'',
             line = None\<rparr>]
      else [])" for t
  proof -
    have es: "entries (analyzeLogs tza t) = map parseLine (filter (\<lambda>l. l \<noteq> []) (lines_of t))"
      by (simp add: entries_analyzeLogs js_split_line_break)
    show ?thesis
      unfolding filter_anomalies(4) suspicious_part_iff es
      by (simp add: suspicious_ua_def list_ex_iff)
  qed
  have tool: "names_tool u \<longleftrightarrow>
        (\<exists>tok \<in> set [''curl'', ''wget'', ''postman'', ''python-requests'', ''go-http-client'',
                       ''sqlmap''].
           \<exists>x w y. u = x @ w @ y \<and> map Canonicalize w = map Canonicalize tok)"
    unfolding names_tool_def list_ex_iff occurs_in_ci suspicious_tokens_def ..
  have curl: "ua (parseLine clf_404_line) = Some ''curl/7.68.0''"
    by (simp add: parseLine_clf_404_line)
  have many: "filter (\<lambda>a. type a = ''Suspicious UA'')
              (anomalies (analyzeLogs tza (repeated (Suc n) clf_404_line))) =
            [\<lparr>type = ''Suspicious UA'',
              message = ''Automation/tool user-agents detected (curl/wget/Postman/etc.)'',
              line = None\<rparr>]" for n
    unfolding general lines_repeated [OF clf_404_line_shape]
    by (simp add: curl names_tool_curl)
  from general [of "txt"] tool curl many show ?thesis by blast
qed

theorem one_suspicious_ua_anomaly_witness:
  "names_tool ''curl/7.68.0''
   \<and> filter (\<lambda>a. type a = ''Suspicious UA'') (anomalies (analyzeLogs (\<lambda>t. 0) clf_404_line)) =
       [\<lparr>type = ''Suspicious UA'',
         message = ''Automation/tool user-agents detected (curl/wget/Postman/etc.)'',
         line = None\<rparr>]
   \<and> filter (\<lambda>a. type a = ''Suspicious UA'')
        (anomalies (analyzeLogs (\<lambda>t. 0) (repeated 3 clf_404_line))) =
       [\<lparr>type = ''Suspicious UA'',
         message = ''Automation/tool user-agents detected (curl/wget/Postman/etc.)'',
         line = None\<rparr>]
   \<and> filter (\<lambda>a. type a = ''Suspicious UA'') (anomalies (analyzeLogs (\<lambda>t. 0) ssh_line)) = []"
  using one_suspicious_ua_anomaly [of "\<lambda>t. 0" clf_404_line "''curl/7.68.0''"]
    one_suspicious_ua_anomaly [of "\<lambda>t. 0" "repeated 3 clf_404_line" "''curl/7.68.0''"]
    one_suspicious_ua_anomaly [of "\<lambda>t. 0" ssh_line "''curl/7.68.0''"]
  by (simp add: lines_of_one_line clf_404_line_shape ssh_line_shape lines_repeated
        names_tool_curl ssh_line_no_tool list_ex_replicate)

section \<open>The key of an entry without address\<close>

lemma anomalies_one_line:
  assumes "CHR 0x0A \<notin> set l" "l \<noteq> []"
  shows "anomalies (analyzeLogs tza l) =
     (let e = parseLine l in
        (if is_http_error e then [http_error_of e] else [])
      @ emitted (\<lambda>n. 6 \<le> n) brute_force
          (Object_entries (if failed_login_entry e then increment [] (key_of e) else []))
      @ emitted (\<lambda>n. 12 \<le> n) error_spike
          (Object_entries (if is_http_error e then increment [] (key_of e) else []))
      @ suspicious_part (aggregate tza [e])
      @ emitted (\<lambda>n. 120 < n) rate_spike
          (Object_entries (foldl max_step [] (Object_entries (bump [] (minute_key e)))))
      @ emitted (\<lambda>n. 100 \<le> n) off_hours
          (Object_entries (if night_entry tza e then increment [] (key_of e) else [])))"
  unfolding anomalies_analyzeLogs entries_one_line [OF assms] Let_def maxPerIP_of_def
    aggregate_fields
  by (simp add: List.map_filter_simps bump_def split: option.splits)

lemma increment_unknown: "increment [] ''unknown'' = [(''unknown'', Number 1)]"
  by (simp add: increment_def set_prop_def get_prop_def or_zero_plus_one_def
        Object_prototype_keys_def)

lemma entry_status_only_line:
  "\<not> failed_login_entry (parseLine status_only_line)"
  "is_http_error (parseLine status_only_line)"
  "ua (parseLine status_only_line) = None"
  "minute_key (parseLine status_only_line) = None"
  "key_of (parseLine status_only_line) = ''unknown''"
  "\<not> night_entry tza (parseLine status_only_line)"
  "http_error_of (parseLine status_only_line) =
     \<lparr>type = ''HTTP Error'', message = ''HTTP 404 from unknown'', line = Some status_only_line\<rparr>"
  by (simp_all add: failed_login_entry_def status_only_line_failed_login
        parseLine_status_only_line is_http_error_def http_error_codes_def minute_key_def
        key_of_def night_entry_def http_error_of_def show_run)

lemma anomalies_status_only_line:
  "anomalies (analyzeLogs tza status_only_line) =
     [\<lparr>type = ''HTTP Error'', message = ''HTTP 404 from unknown'', line = Some status_only_line\<rparr>]"
  unfolding anomalies_one_line [OF status_only_line_shape] Let_def suspicious_part_iff
  by (simp add: entry_status_only_line increment_unknown Object_entries_one Object_entries_Nil
        emitted_simps bump_def)

lemma http_error_in_anomalies:
  assumes "l \<in> set (lines_of txt)" "l \<noteq> []" "is_http_error (parseLine l)"
  shows "http_error_of (parseLine l) \<in> set (anomalies (analyzeLogs tza txt))"
proof -
  have "parseLine l \<in> set (entries (analyzeLogs tza txt))"
    using assms(1,2) by (simp add: entries_analyzeLogs js_split_line_break)
  with assms(3) show ?thesis
    unfolding anomalies_analyzeLogs Let_def by simp
qed

text \<open>
  Claim C9, as the analyser has it. The key \<^verbatim>\<open>unknown\<close> of an entry without address is
  not kept inside: it is the address that the anomalies of such an entry cite. The line
  \<^verbatim>\<open>x 404 y\<close> has no address and a status of 404, and its anomaly says
  \<^verbatim>\<open>HTTP 404 from unknown\<close>.
\<close>

theorem unknown_key_surfaces:
  "ip (parseLine status_only_line) = None
   \<and> status (parseLine status_only_line) = Some 404
   \<and> (\<forall>tza. anomalies (analyzeLogs tza status_only_line) =
         [\<lparr>type = ''HTTP Error'', message = ''HTTP 404 from unknown'',
           line = Some status_only_line\<rparr>])"
  by (simp add: anomalies_status_only_line parseLine_status_only_line)

text \<open>
  Claim C9, amended. Every non-empty line of the text whose entry has no address and a
  status among 403, 404, 500, 502, 503 yields an HTTP Error anomaly whose message is
  \<^verbatim>\<open>HTTP <status> from unknown\<close>: the key \<^verbatim>\<open>unknown\<close> stands in the message where
  the address of the entry would stand.
\<close>

theorem unknown_key_is_cited:
  assumes "l \<in> set (lines_of txt)" "l \<noteq> []"
    and "ip (parseLine l) = None"
    and "status (parseLine l) = Some code"
    and "code \<in> {403, 404, 500, 502, 503}"
  shows "\<lparr>type = ''HTTP Error'', message = ''HTTP '' @ show_int code @ '' from unknown'',
          line = Some l\<rparr> \<in> set (anomalies (analyzeLogs tza txt))"
proof -
  from assms(4,5) have "is_http_error (parseLine l)"
    by (auto simp: is_http_error_def http_error_codes_def)
  from http_error_in_anomalies [OF assms(1,2) this, of tza]
  show ?thesis by (simp add: http_error_of_def assms(3,4))
qed

theorem unknown_key_is_cited_witness:
  "status_only_line \<in> set (lines_of status_only_line)
   \<and> ip (parseLine status_only_line) = None
   \<and> status (parseLine status_only_line) = Some 404
   \<and> \<lparr>type = ''HTTP Error'', message = ''HTTP 404 from unknown'', line = Some status_only_line\<rparr>
        \<in> set (anomalies (analyzeLogs (\<lambda>t. 0) status_only_line))"
  using unknown_key_is_cited [of status_only_line status_only_line 404 "\<lambda>t. 0"]
  by (simp add: lines_of_one_line status_only_line_shape parseLine_status_only_line show_run)

section \<open>A timestamp at the epoch\<close>

definition epoch_plus_line :: string where
  \<open>epoch_plus_line =
     ''10.0.0.1 - - [01/Jan/1970:00:00:01 +0000] "GET /x HTTP/1.0" 200 7 "-" "-"''\<close>

lemma epoch_plus_line_CLF:
  \<open>re_match CLF_RE epoch_plus_line =
     Some (Match epoch_plus_line
       [(6, ''-''), (5, ''200''), (4, ''/x''), (3, ''GET''),
        (2, ''01/Jan/1970:00:00:01 +0000''), (1, ''10.0.0.1'')])\<close>
  unfolding epoch_plus_line_def by (simp add: regex_run CLF_RE_def cong: frozen)

lemma date_1970_plus: "parseApacheDate ''01/Jan/1970:00:00:01 +0000'' = Some (Time 1000)"
proof -
  have "re_match APACHE_DATE_RE ''01/Jan/1970:00:00:01 +0000'' =
          Some (Match ''01/Jan/1970:00:00:01 +0000''
            [(7, ''+0000''), (6, ''01''), (5, ''00''), (4, ''00''), (3, ''1970''), (2, ''Jan''), (1, ''01'')])"
    by (simp add: regex_run APACHE_DATE_RE_def cong: frozen)
  then show ?thesis
    by (simp add: parseApacheDate_def group_def template_def months_def Date_getTime_def
          substring_def dec_def digit_val_def MakeDay_def DayFromYear_def days_before_month_def
          InLeapYear_def is_digit_run Let_def)
qed

text \<open>
  Claim C7, at a line whose time is the epoch. The line is in combined format and its time
  field \<^verbatim>\<open>01/Jan/1970:00:00:00 +0000\<close> is well formed; \<^verbatim>\<open>parseApacheDate\<close> gives the
  instant 0 for it. The test \<^verbatim>\<open>if (ts)\<close> of \<^verbatim>\<open>parseLine\<close> takes 0 for a missing value,
  so the entry has no timestamp, while it has its address, method, path, status and user
  agent. A line one second later keeps its timestamp.
\<close>

theorem epoch_timestamp_dropped:
  "map_option (\<lambda>mt. group mt 2) (re_match CLF_RE epoch_line) =
     Some (Some ''01/Jan/1970:00:00:00 +0000'')
   \<and> parseApacheDate ''01/Jan/1970:00:00:00 +0000'' = Some (Time 0)
   \<and> parseLine epoch_line =
       \<lparr>raw = epoch_line, ip = Some ''10.0.0.1'', status = Some 200, ts = None,
        method' = Some ''GET'', path = Some ''/x'', ua = Some ''-'', tags = []\<rparr>
   \<and> parseApacheDate ''01/Jan/1970:00:00:01 +0000'' = Some (Time 1000)
   \<and> ts (parseLine epoch_plus_line) = Some 1000"
  by (simp add: epoch_line_CLF group_def date_1970 parseLine_epoch_line date_1970_plus
        parseLine_def epoch_plus_line_CLF parseInt_200)

section \<open>Addresses that name a member of the object prototype\<close>

lemma anomalies_repeated:
  assumes "CHR 0x0A \<notin> set l" "strip_cr l = l" "l \<noteq> []"
  shows "anomalies (analyzeLogs tza (repeated n l)) =
     (let e = parseLine l in
        (if is_http_error e then replicate n (http_error_of e) else [])
      @ emitted (\<lambda>n. 6 \<le> n) brute_force
          (Object_entries
             (if failed_login_entry e then foldl increment [] (replicate n (key_of e)) else []))
      @ emitted (\<lambda>n. 12 \<le> n) error_spike
          (Object_entries
             (if is_http_error e then foldl increment [] (replicate n (key_of e)) else []))
      @ (if 0 < n \<and> (case ua e of None \<Rightarrow> False | Some u \<Rightarrow> names_tool u)
         then [suspicious_ua] else [])
      @ emitted (\<lambda>n. 120 < n) rate_spike
          (Object_entries
             (foldl max_step []
                (Object_entries
                   (case minute_key e of None \<Rightarrow> []
                    | Some k \<Rightarrow> foldl increment [] (replicate n k)))))
      @ emitted (\<lambda>n. 100 \<le> n) off_hours
          (Object_entries
             (if night_entry tza e then foldl increment [] (replicate n (key_of e)) else [])))"
  unfolding anomalies_analyzeLogs entries_repeated [OF assms] Let_def maxPerIP_of_def
    suspicious_part_iff aggregate_replicate list_ex_replicate
  by simp

lemma entry_ssh_line:
  "failed_login_entry (parseLine ssh_line)"
  "\<not> is_http_error (parseLine ssh_line)"
  "ua (parseLine ssh_line) = None"
  "minute_key (parseLine ssh_line) = None"
  "key_of (parseLine ssh_line) = ''10.0.0.5''"
  "\<not> night_entry tza (parseLine ssh_line)"
  by (simp_all add: failed_login_entry_def parseLine_ssh_line is_http_error_def minute_key_def
        key_of_def night_entry_def)

lemma anomalies_ssh_lines:
  assumes "0 < n"
  shows "anomalies (analyzeLogs tza (repeated n ssh_line)) =
     (if 6 \<le> n
      then [\<lparr>type = ''Brute Force'', message = show_nat n @ '' failed logins from 10.0.0.5'',
             line = None\<rparr>]
      else [])"
proof -
  have "''10.0.0.5'' \<notin> set Object_prototype_keys"
    by (simp add: Object_prototype_keys_def)
  with assms show ?thesis
    unfolding anomalies_repeated [OF ssh_line_shape] Let_def
    by (simp add: entry_ssh_line foldl_increment_own_key Object_entries_one Object_entries_Nil
          emitted_simps brute_force_def)
qed

text \<open>
  Claim C4, at an address that names a member of the object prototype. Six requests
  whose text holds the words \<^verbatim>\<open>failed login\<close> come from the host \<^verbatim>\<open>constructor\<close>. The
  counter \<^verbatim>\<open>failedByIP\<close> is a plain object: reading the key \<^verbatim>\<open>constructor\<close> gives the
  inherited member, adding 1 to it gives a string, and the comparison of the string with
  6 is false. The analyser reports no anomaly at all. With an address that names no such
  member the rule fires from six lines on and not for five, and seven lines of the
  example give the one anomaly \<^verbatim>\<open>7 failed logins from 10.0.0.5\<close>.
\<close>

theorem brute_force_missed_for_constructor:
  "filter (\<lambda>l. l \<noteq> []) (lines_of (repeated 6 constructor_login_line)) =
     replicate 6 constructor_login_line
   \<and> ip (parseLine constructor_login_line) = Some ''constructor''
   \<and> re_test FAILED_LOGIN_RE (raw (parseLine constructor_login_line))
   \<and> (\<forall>tza. anomalies (analyzeLogs tza (repeated 6 constructor_login_line)) = [])
   \<and> (\<forall>tza. anomalies (analyzeLogs tza (repeated 7 ssh_line)) =
         [\<lparr>type = ''Brute Force'', message = ''7 failed logins from 10.0.0.5'', line = None\<rparr>])
   \<and> (\<forall>tza. anomalies (analyzeLogs tza (repeated 6 ssh_line)) =
         [\<lparr>type = ''Brute Force'', message = ''6 failed logins from 10.0.0.5'', line = None\<rparr>])
   \<and> (\<forall>tza. anomalies (analyzeLogs tza (repeated 5 ssh_line)) = [])"
  by (simp add: lines_repeated constructor_login_line_shape parseLine_constructor_login_line
        constructor_login_line_failed_login anomalies_constructor_login anomalies_ssh_lines
        show_run)

section \<open>Requests per minute\<close>

definition plain_line :: string where
  \<open>plain_line =
     ''10.0.0.1 - - [10/Oct/2000:13:55:36 -0700] "GET /x HTTP/1.0" 200 7 "-" "-"''\<close>

lemma plain_line_CLF:
  \<open>re_match CLF_RE plain_line =
     Some (Match plain_line
       [(6, ''-''), (5, ''200''), (4, ''/x''), (3, ''GET''),
        (2, ''10/Oct/2000:13:55:36 -0700''), (1, ''10.0.0.1'')])\<close>
  unfolding plain_line_def by (simp add: regex_run CLF_RE_def cong: frozen)

lemma parseLine_plain_line:
  "parseLine plain_line =
     \<lparr>raw = plain_line, ip = Some ''10.0.0.1'', status = Some 200,
      ts = Some 971211336000, method' = Some ''GET'', path = Some ''/x'', ua = Some ''-'',
      tags = []\<rparr>"
  by (simp add: parseLine_def plain_line_CLF group_def date_2000 parseInt_200)

lemma plain_line_shape:
  "CHR 0x0A \<notin> set plain_line" "strip_cr plain_line = plain_line" "plain_line \<noteq> []"
  by (simp_all add: plain_line_def strip_cr_def)

lemma rate_spikes_repeated:
  assumes "CHR 0x0A \<notin> set l" "strip_cr l = l" "l \<noteq> []"
  shows "filter (\<lambda>a. type a = ''Rate Spike'') (anomalies (analyzeLogs tza (repeated n l))) =
     emitted (\<lambda>n. 120 < n) rate_spike
       (Object_entries
          (foldl max_step []
             (Object_entries
                (case minute_key (parseLine l) of None \<Rightarrow> []
                 | Some k \<Rightarrow> foldl increment [] (replicate n k)))))"
  unfolding filter_anomalies(5) entries_repeated [OF assms] maxPerIP_of_def aggregate_replicate
  by (rule refl)

lemma minute_key_plain_line: "minute_key (parseLine plain_line) = Some ''10.0.0.1:16186855''"
  by (simp add: parseLine_plain_line minute_key_def bucket_2000)

lemma max_step_plain:
  "max_step [] (''10.0.0.1:16186855'', Number n) = [(''10.0.0.1'', Number n)]"
  by (simp add: max_step_def get_prop_def set_prop_def Object_prototype_keys_def)

lemma rate_spikes_plain_line:
  assumes "0 < n"
  shows "filter (\<lambda>a. type a = ''Rate Spike'') (anomalies (analyzeLogs tza (repeated n plain_line))) =
     (if 120 < n
      then [\<lparr>type = ''Rate Spike'', message = ''10.0.0.1 peaked at '' @ show_nat n @ '' req/min'',
             line = None\<rparr>]
      else [])"
proof -
  have "''10.0.0.1:16186855'' \<notin> set Object_prototype_keys"
    by (simp add: Object_prototype_keys_def)
  with assms show ?thesis
    unfolding rate_spikes_repeated [OF plain_line_shape] minute_key_plain_line
    by (simp add: foldl_increment_own_key Object_entries_one max_step_plain emitted_simps
          rate_spike_def)
qed

lemma entry_constructor_line:
  "\<not> failed_login_entry (parseLine constructor_line)"
  "\<not> is_http_error (parseLine constructor_line)"
  "ua (parseLine constructor_line) = Some ''-''"
  "minute_key (parseLine constructor_line) = Some ''constructor:16186855''"
  "key_of (parseLine constructor_line) = ''constructor''"
  by (simp_all add: failed_login_entry_def constructor_line_failed_login
        parseLine_constructor_line is_http_error_def http_error_codes_def
        minute_key_def bucket_2000 key_of_def)

lemma names_tool_dash: "\<not> names_tool ''-''"
  by (simp add: names_tool_def suspicious_tokens_def cls_mem.simps)

lemma anomalies_constructor_lines:
  assumes "0 < n"
  shows "anomalies (analyzeLogs tza (repeated n constructor_line)) = []"
proof -
  have proto: "''constructor'' \<in> set Object_prototype_keys" "''constructor'' \<noteq> ''__proto__''"
    "''constructor:16186855'' \<notin> set Object_prototype_keys"
    by (simp_all add: Object_prototype_keys_def)
  with assms show ?thesis
    unfolding anomalies_repeated [OF constructor_line_shape] Let_def
    by (simp add: entry_constructor_line foldl_increment_own_key foldl_increment_inherited_key
          Object_entries_one Object_entries_Nil emitted_simps names_tool_dash
          max_step_constructor)
qed

text \<open>
  Claim C5, at an address that names a member of the object prototype. The host
  \<^verbatim>\<open>constructor\<close> sends 121 requests within one minute. The counter \<^verbatim>\<open>perMinute\<close> holds
  121 under the key \<^verbatim>\<open>constructor:16186855\<close>, but the table \<^verbatim>\<open>maxPerIP\<close> is a plain
  object: \<^verbatim>\<open>maxPerIP["constructor"]\<close> is the inherited member, which is truthy and compares
  false with every number, so the maximum is never stored and no Rate Spike is reported.
  The same 121 requests from \<^verbatim>\<open>10.0.0.1\<close> are reported with their peak of 121, and 120
  are not.
\<close>

theorem rate_spike_missed_for_constructor:
  "filter (\<lambda>l. l \<noteq> []) (lines_of (repeated 121 constructor_line)) = replicate 121 constructor_line
   \<and> ip (parseLine constructor_line) = Some ''constructor''
   \<and> ts (parseLine constructor_line) = Some 971211336000
   \<and> (\<forall>tza. anomalies (analyzeLogs tza (repeated 121 constructor_line)) = [])
   \<and> (\<forall>tza. filter (\<lambda>a. type a = ''Rate Spike'')
               (anomalies (analyzeLogs tza (repeated 121 plain_line))) =
         [\<lparr>type = ''Rate Spike'', message = ''10.0.0.1 peaked at 121 req/min'', line = None\<rparr>])
   \<and> (\<forall>tza. filter (\<lambda>a. type a = ''Rate Spike'')
               (anomalies (analyzeLogs tza (repeated 120 plain_line))) = [])"
  by (simp add: lines_repeated constructor_line_shape parseLine_constructor_line
        anomalies_constructor_lines rate_spikes_plain_line show_run)

section \<open>The address recovered from a key of the minute counter\<close>




















section \<open>The address of a line\<close>

text \<open>
  A dotted quad is four runs of one to three digits, separated by dots. It occurs as a
  token of a line where no word character stands directly before or after it.
\<close>

definition octet :: "string \<Rightarrow> bool" where
  "octet d = (d \<noteq> [] \<and> length d \<le> 3 \<and> list_all is_digit d)"

definition dotted_quad :: "string \<Rightarrow> bool" where
  "dotted_quad a =
     (case split_on (CHR ''.'') a of
        [d1, d2, d3, d4] \<Rightarrow> octet d1 \<and> octet d2 \<and> octet d3 \<and> octet d4
      | _ \<Rightarrow> False)"

definition ipv4_token :: "string \<Rightarrow> string \<Rightarrow> string \<Rightarrow> bool" where
  "ipv4_token u a v =
     (dotted_quad a \<and> (u = [] \<or> \<not> is_word (last u)) \<and> (v = [] \<or> \<not> is_word (hd v)))"

lemma split_on_single: "split_on sep s = [p] \<Longrightarrow> s = p \<and> sep \<notin> set p"
proof (induction s arbitrary: p)
  case Nil
  then show ?case by simp
next
  case (Cons c s)
  then show ?case by (auto split: if_splits list.splits)
qed

lemma split_on_more:
  "split_on sep s = p # q # ps \<Longrightarrow>
     \<exists>s'. s = p @ sep # s' \<and> sep \<notin> set p \<and> split_on sep s' = q # ps"
proof (induction s arbitrary: p)
  case Nil
  then show ?case by simp
next
  case (Cons c s)
  show ?case
  proof (cases "c = sep")
    case True
    with Cons.prems show ?thesis by auto
  next
    case False
    with Cons.prems obtain p' where p': "p = c # p'" "split_on sep s = p' # q # ps"
      by (auto split: list.splits)
    from Cons.IH [OF p'(2)] obtain s' where
      "s = p' @ sep # s'" "sep \<notin> set p'" "split_on sep s' = q # ps" by blast
    with p' False show ?thesis by auto
  qed
qed

lemma not_digit_dot: "\<not> is_digit (CHR ''.'')"
  by (simp add: is_digit_run)

lemma octet_facts:
  assumes "octet d"
  shows "IsWordChar (lookahead (St p (d @ r) cs))" "IsWordChar (adv q d)" "CHR ''.'' \<notin> set d"
proof -
  from assms obtain c d' where d: "d = c # d'" and dig: "list_all is_digit d"
    by (cases d) (auto simp: octet_def)
  then have "is_digit c" by simp
  then show "IsWordChar (lookahead (St p (d @ r) cs))"
    by (simp add: d lookahead_def IsWordChar_def is_word_def)
  from d have "last d \<in> set d" by (metis last_in_set list.distinct(1))
  with dig have "is_digit (last d)" by (auto simp: list_all_iff)
  with d show "IsWordChar (adv q d)"
    by (simp add: adv_def IsWordChar_def is_word_def)
  from dig not_digit_dot show "CHR ''.'' \<notin> set d"
    by (auto simp: list_all_iff)
qed

lemma dotted_quad_iff:
  "dotted_quad a \<longleftrightarrow>
     (\<exists>d1 d2 d3 d4. a = d1 @ CHR ''.'' # d2 @ CHR ''.'' # d3 @ CHR ''.'' # d4
        \<and> octet d1 \<and> octet d2 \<and> octet d3 \<and> octet d4)"
proof
  assume "dotted_quad a"
  then obtain d1 d2 d3 d4 where
    s: "split_on (CHR ''.'') a = [d1, d2, d3, d4]" and
    o: "octet d1" "octet d2" "octet d3" "octet d4"
    by (auto simp: dotted_quad_def split: list.splits)
  from split_on_more [OF s] obtain a1 where
    a1: "a = d1 @ CHR ''.'' # a1" "split_on (CHR ''.'') a1 = [d2, d3, d4]" by blast
  from split_on_more [OF a1(2)] obtain a2 where
    a2: "a1 = d2 @ CHR ''.'' # a2" "split_on (CHR ''.'') a2 = [d3, d4]" by blast
  from split_on_more [OF a2(2)] obtain a3 where
    a3: "a2 = d3 @ CHR ''.'' # a3" "split_on (CHR ''.'') a3 = [d4]" by blast
  from split_on_single [OF a3(2)] have "a3 = d4" by simp
  with a1 a2 a3 o show "\<exists>d1 d2 d3 d4. a = d1 @ CHR ''.'' # d2 @ CHR ''.'' # d3 @ CHR ''.'' # d4
        \<and> octet d1 \<and> octet d2 \<and> octet d3 \<and> octet d4" by blast
next
  assume "\<exists>d1 d2 d3 d4. a = d1 @ CHR ''.'' # d2 @ CHR ''.'' # d3 @ CHR ''.'' # d4
        \<and> octet d1 \<and> octet d2 \<and> octet d3 \<and> octet d4"
  then obtain d1 d2 d3 d4 where
    a: "a = d1 @ CHR ''.'' # d2 @ CHR ''.'' # d3 @ CHR ''.'' # d4" and
    o: "octet d1" "octet d2" "octet d3" "octet d4" by blast
  from o have "CHR ''.'' \<notin> set d1" "CHR ''.'' \<notin> set d2" "CHR ''.'' \<notin> set d3" "CHR ''.'' \<notin> set d4"
    by (simp_all add: octet_facts(3))
  then have "split_on (CHR ''.'') a = [d1, d2, d3, d4]"
    unfolding a by (simp add: split_on_append split_on_no_sep)
  with o show "dotted_quad a" by (simp add: dotted_quad_def)
qed

text \<open>What the pattern \<^verbatim>\<open>IP_RE\<close> matches.\<close>

lemma matches_Rep_exact_0: "matches ic (Rep 0 (Some 0) g r) x y \<longleftrightarrow> y = x"
  by (subst matches_Rep_iff) auto

lemma matches_Rep_exact_Suc:
  "matches ic (Rep (Suc n) (Some (Suc n)) g r) x y \<longleftrightarrow>
     (\<exists>y'. matches ic r x y' \<and> matches ic (Rep n (Some n) g r) y' y)"
  by (subst matches_Rep_iff) auto

lemma matches_octet:
  "matches ic (Rep 1 (Some 3) g (Chr Digit)) (St p s cs) y \<longleftrightarrow>
     (\<exists>d r. s = d @ r \<and> octet d \<and> y = St (adv p d) r cs)"
proof -
  have "matches ic (Rep 1 (Some 3) g (Chr Digit)) (St p s cs) y \<longleftrightarrow>
     (\<exists>w. s = w @ remaining y \<and> list_all is_digit w \<and> 1 \<le> length w \<and> length w \<le> 3
        \<and> y = St (adv p w) (remaining y) cs)"
    by (subst matches_Rep_Chr) (simp_all add: cls_mem.simps [abs_def])
  also have "\<dots> \<longleftrightarrow> (\<exists>d r. s = d @ r \<and> octet d \<and> y = St (adv p d) r cs)"
  proof
    assume "\<exists>w. s = w @ remaining y \<and> list_all is_digit w \<and> 1 \<le> length w \<and> length w \<le> 3
        \<and> y = St (adv p w) (remaining y) cs"
    then obtain w where "s = w @ remaining y" "list_all is_digit w" "1 \<le> length w"
      "length w \<le> 3" "y = St (adv p w) (remaining y) cs" by blast
    then show "\<exists>d r. s = d @ r \<and> octet d \<and> y = St (adv p d) r cs"
      by (intro exI [of _ w] exI [of _ "remaining y"]) (auto simp: octet_def)
  next
    assume "\<exists>d r. s = d @ r \<and> octet d \<and> y = St (adv p d) r cs"
    then obtain d r where "s = d @ r" "octet d" "y = St (adv p d) r cs" by blast
    then show "\<exists>w. s = w @ remaining y \<and> list_all is_digit w \<and> 1 \<le> length w \<and> length w \<le> 3
        \<and> y = St (adv p w) (remaining y) cs"
      by (intro exI [of _ d]) (auto simp: octet_def Suc_le_eq)
  qed
  finally show ?thesis .
qed

lemma matches_dot_octet:
  "matches False (Seq (Chr (Lit (CHR ''.''))) (Rep 1 (Some 3) g (Chr Digit))) (St p s cs) y \<longleftrightarrow>
     (\<exists>d r. s = CHR ''.'' # d @ r \<and> octet d \<and> y = St (adv (Some (CHR ''.'')) d) r cs)"
  unfolding matches_Seq_iff matches_Chr_iff
  by (auto simp: matches_octet [unfolded One_nat_def] cls_mem.simps)

lemma matches_IP_RE:
  "matches False (fst IP_RE) (St p s []) z \<longleftrightarrow>
     (\<exists>d1 d2 d3 d4 r.
        s = d1 @ CHR ''.'' # d2 @ CHR ''.'' # d3 @ CHR ''.'' # d4 @ r
        \<and> octet d1 \<and> octet d2 \<and> octet d3 \<and> octet d4
        \<and> \<not> IsWordChar p \<and> \<not> IsWordChar (lookahead (St None r []))
        \<and> z = St (adv (Some (CHR ''.'')) d4) r [])"
  (is "?L \<longleftrightarrow> ?R")
proof -
  let ?D = "Rep 1 (Some 3) True (Chr Digit)"
  let ?E = "Seq (Chr (Lit (CHR ''.''))) ?D"
  have three: "matches False (Rep 3 (Some 3) True ?E) x y \<longleftrightarrow>
      (\<exists>y1 y2. matches False ?E x y1 \<and> matches False ?E y1 y2 \<and> matches False ?E y2 y)" for x y
  proof -
    have "matches False (Rep (Suc (Suc (Suc 0))) (Some (Suc (Suc (Suc 0)))) True ?E) x y \<longleftrightarrow>
      (\<exists>y1 y2. matches False ?E x y1 \<and> matches False ?E y1 y2 \<and> matches False ?E y2 y)"
      unfolding matches_Rep_exact_Suc matches_Rep_exact_0 by auto
    then show ?thesis by (simp add: numeral_3_eq_3)
  qed
  have unfoldL: "?L \<longleftrightarrow>
     (IsWordChar p \<noteq> IsWordChar (lookahead (St p s [])) \<and>
      (\<exists>y1 y2 y3. matches False ?D (St p s []) y1 \<and> matches False ?E y1 y2
         \<and> matches False ?E y2 y3 \<and> matches False ?E y3 z
         \<and> IsWordChar (prev z) \<noteq> IsWordChar (lookahead z)))"
    unfolding IP_RE_def fst_conv seqs.simps matches_Seq_iff matches_WordB_iff three
    by auto
  show ?thesis
  proof
    assume ?L
    with unfoldL obtain y1 y2 y3 where
      b1: "IsWordChar p \<noteq> IsWordChar (lookahead (St p s []))" and
      m1: "matches False ?D (St p s []) y1" and
      m2: "matches False ?E y1 y2" and
      m3: "matches False ?E y2 y3" and
      m4: "matches False ?E y3 z" and
      b2: "IsWordChar (prev z) \<noteq> IsWordChar (lookahead z)"
      by blast
    from m1 obtain d1 r1 where 1: "s = d1 @ r1" "octet d1" "y1 = St (adv p d1) r1 []"
      unfolding matches_octet by blast
    from m2 obtain d2 r2 where 2: "r1 = CHR ''.'' # d2 @ r2" "octet d2"
      "y2 = St (adv (Some (CHR ''.'')) d2) r2 []"
      unfolding 1(3) matches_dot_octet by blast
    from m3 obtain d3 r3 where 3: "r2 = CHR ''.'' # d3 @ r3" "octet d3"
      "y3 = St (adv (Some (CHR ''.'')) d3) r3 []"
      unfolding 2(3) matches_dot_octet by blast
    from m4 obtain d4 r where 4: "r3 = CHR ''.'' # d4 @ r" "octet d4"
      "z = St (adv (Some (CHR ''.'')) d4) r []"
      unfolding 3(3) matches_dot_octet by blast
    from b1 octet_facts(1) [OF 1(2), of p r1 "[]"] have p: "\<not> IsWordChar p"
      by (simp add: 1(1))
    from b2 octet_facts(2) [OF 4(2), of "Some (CHR ''.'')"]
    have "\<not> IsWordChar (lookahead (St None r []))"
      by (simp add: 4(3) lookahead_def)
    with 1 2 3 4 p show ?R by auto
  next
    assume ?R
    then obtain d1 d2 d3 d4 r where
      s: "s = d1 @ CHR ''.'' # d2 @ CHR ''.'' # d3 @ CHR ''.'' # d4 @ r" and
      o: "octet d1" "octet d2" "octet d3" "octet d4" and
      p: "\<not> IsWordChar p" and r: "\<not> IsWordChar (lookahead (St None r []))" and
      z: "z = St (adv (Some (CHR ''.'')) d4) r []"
      by blast
    let ?y1 = "St (adv p d1) (CHR ''.'' # d2 @ CHR ''.'' # d3 @ CHR ''.'' # d4 @ r) []"
    let ?y2 = "St (adv (Some (CHR ''.'')) d2) (CHR ''.'' # d3 @ CHR ''.'' # d4 @ r) []"
    let ?y3 = "St (adv (Some (CHR ''.'')) d3) (CHR ''.'' # d4 @ r) []"
    have "matches False ?D (St p s []) ?y1"
      unfolding matches_octet s using o(1) by blast
    moreover have "matches False ?E ?y1 ?y2"
      unfolding matches_dot_octet using o(2) by blast
    moreover have "matches False ?E ?y2 ?y3"
      unfolding matches_dot_octet using o(3) by blast
    moreover have "matches False ?E ?y3 z"
      unfolding matches_dot_octet z using o(4) by blast
    moreover have "IsWordChar p \<noteq> IsWordChar (lookahead (St p s []))"
      using p octet_facts(1) [OF o(1), of p _ "[]"] by (simp add: s)
    moreover have "IsWordChar (prev z) \<noteq> IsWordChar (lookahead z)"
      using r octet_facts(2) [OF o(4), of "Some (CHR ''.'')"] by (simp add: z lookahead_def)
    ultimately show ?L unfolding unfoldL by blast
  qed
qed

lemma word_before: "IsWordChar (adv None u) \<longleftrightarrow> u \<noteq> [] \<and> is_word (last u)"
  by (simp add: adv_def IsWordChar_def)

lemma word_after: "IsWordChar (lookahead (St p v cs)) \<longleftrightarrow> v \<noteq> [] \<and> is_word (hd v)"
  by (cases v) (simp_all add: lookahead_def IsWordChar_def)

lemma matches_IP_RE_token:
  "(\<exists>z. matches False (fst IP_RE) (St (adv None u) s []) z \<and> s = a @ remaining z) \<longleftrightarrow>
     (\<exists>v. s = a @ v \<and> ipv4_token u a v)"
proof
  assume "\<exists>z. matches False (fst IP_RE) (St (adv None u) s []) z \<and> s = a @ remaining z"
  then obtain z where m: "matches False (fst IP_RE) (St (adv None u) s []) z"
    and s: "s = a @ remaining z" by blast
  from m obtain d1 d2 d3 d4 r where
    d: "s = d1 @ CHR ''.'' # d2 @ CHR ''.'' # d3 @ CHR ''.'' # d4 @ r"
       "octet d1" "octet d2" "octet d3" "octet d4"
       "\<not> IsWordChar (adv None u)" "\<not> IsWordChar (lookahead (St None r []))"
       "z = St (adv (Some (CHR ''.'')) d4) r []"
    unfolding matches_IP_RE by blast
  from d(1,8) s have a: "a = d1 @ CHR ''.'' # d2 @ CHR ''.'' # d3 @ CHR ''.'' # d4"
    by simp
  with d(2-5) have "dotted_quad a" unfolding dotted_quad_iff by blast
  with d(6,7) have "ipv4_token u a r"
    by (auto simp: ipv4_token_def word_before word_after)
  with d(1) a show "\<exists>v. s = a @ v \<and> ipv4_token u a v" by auto
next
  assume "\<exists>v. s = a @ v \<and> ipv4_token u a v"
  then obtain v where v: "s = a @ v" "ipv4_token u a v" by blast
  from v(2) obtain d1 d2 d3 d4 where
    a: "a = d1 @ CHR ''.'' # d2 @ CHR ''.'' # d3 @ CHR ''.'' # d4" and
    o: "octet d1" "octet d2" "octet d3" "octet d4"
    unfolding ipv4_token_def dotted_quad_iff by blast
  from v(2) have b: "\<not> IsWordChar (adv None u)" "\<not> IsWordChar (lookahead (St None v []))"
    by (auto simp: ipv4_token_def word_before word_after)
  have "matches False (fst IP_RE) (St (adv None u) s []) (St (adv (Some (CHR ''.'')) d4) v [])"
    unfolding matches_IP_RE using a o b v(1) by auto
  with v(1) show "\<exists>z. matches False (fst IP_RE) (St (adv None u) s []) z \<and> s = a @ remaining z"
    by (intro exI [of _ "St (adv (Some (CHR ''.'')) d4) v []"]) simp
qed

lemma IP_RE_flags: "snd IP_RE = False"
  by (simp add: IP_RE_def)

lemma re_match_IP_RE_Some:
  assumes "re_match IP_RE l = Some mt"
  shows "\<exists>u v. l = u @ matched mt @ v \<and> ipv4_token u (matched mt) v"
proof -
  from assms have "RegExpExec IP_RE None l = Some mt" by (simp add: re_match_def)
  from RegExpExec_Some [OF this] obtain u z where
    l: "l = u @ matched mt @ remaining z" and
    m: "matches False (fst IP_RE) (St (adv None u) (matched mt @ remaining z) []) z"
    unfolding IP_RE_flags by blast
  from m have "\<exists>z'. matches False (fst IP_RE) (St (adv None u) (matched mt @ remaining z) []) z'
                 \<and> matched mt @ remaining z = matched mt @ remaining z'"
    by blast
  then obtain v where "matched mt @ remaining z = matched mt @ v" "ipv4_token u (matched mt) v"
    unfolding matches_IP_RE_token by blast
  with l show ?thesis by auto
qed

lemma re_match_IP_RE_None:
  "re_match IP_RE l = None \<longleftrightarrow> \<not> (\<exists>u a v. l = u @ a @ v \<and> ipv4_token u a v)"
proof
  assume none: "re_match IP_RE l = None"
  show "\<not> (\<exists>u a v. l = u @ a @ v \<and> ipv4_token u a v)"
  proof
    assume "\<exists>u a v. l = u @ a @ v \<and> ipv4_token u a v"
    then obtain u a v where l: "l = u @ a @ v" and t: "ipv4_token u a v" by blast
    then have "\<exists>v'. a @ v = a @ v' \<and> ipv4_token u a v'" by blast
    then obtain z where "matches False (fst IP_RE) (St (adv None u) (a @ v) []) z"
      unfolding matches_IP_RE_token [symmetric] by blast
    with none l show False
      by (auto simp: re_match_def RegExpExec_None_iff IP_RE_flags)
  qed
next
  assume no: "\<not> (\<exists>u a v. l = u @ a @ v \<and> ipv4_token u a v)"
  show "re_match IP_RE l = None"
  proof (rule ccontr)
    assume "re_match IP_RE l \<noteq> None"
    then obtain mt where "re_match IP_RE l = Some mt" by auto
    from re_match_IP_RE_Some [OF this] no show False by blast
  qed
qed

lemma ip_parseLine_other:
  "re_match CLF_RE l = None \<Longrightarrow> ip (parseLine l) = map_option matched (re_match IP_RE l)"
  by (simp add: parseLine_def Let_def)

lemma ip_parseLine_CLF: "re_match CLF_RE l = Some mt \<Longrightarrow> ip (parseLine l) = group mt 1"
  by (simp add: parseLine_def Let_def)

lemma status_only_line_CLF: "re_match CLF_RE status_only_line = None"
  unfolding status_only_line_def by (simp add: regex_run CLF_RE_def cong: frozen)

lemma dotted_quad_samples: "dotted_quad ''10.0.0.5''" "\<not> dotted_quad ''localhost''"
  by (simp_all add: dotted_quad_def octet_def is_digit_run)

text \<open>
  Claim C8, at a line in combined format whose first field is a host name. The address of
  the entry is that field, \<^verbatim>\<open>localhost\<close>: it is present, it is no dotted quad, and no
  dotted quad occurs as a token anywhere in the line.
\<close>

theorem address_not_dotted_quad:
  "ip (parseLine localhost_line) = Some ''localhost''
   \<and> \<not> dotted_quad ''localhost''
   \<and> \<not> (\<exists>u a v. localhost_line = u @ a @ v \<and> ipv4_token u a v)"
proof -
  have "ip (parseLine localhost_line) = Some ''localhost''"
    by (simp add: ip_parseLine_CLF [OF localhost_line_CLF] group_def)
  moreover have "\<not> (\<exists>u a v. localhost_line = u @ a @ v \<and> ipv4_token u a v)"
    using localhost_line_IP unfolding re_match_IP_RE_None .
  ultimately show ?thesis using dotted_quad_samples(2) by blast
qed

text \<open>
  Claim C8, amended. For a line in combined format the address of the entry is the first
  field of the line, a non-empty run of characters other than white space that ends at the
  first blank; it need not be a dotted quad. For every other line the address is absent
  or a dotted quad that occurs as a token of the line, and it is absent exactly when no
  dotted quad occurs as a token of the line. A dotted quad is four runs of one to three
  digits separated by dots; a token has no word character directly before or after it.
\<close>

theorem address_of_line:
  "(\<forall>mt. re_match CLF_RE l = Some mt \<longrightarrow>
       (\<exists>a rest. l = a @ CHR '' '' # rest \<and> a \<noteq> [] \<and> list_all (\<lambda>c. \<not> is_space c) a
          \<and> ip (parseLine l) = Some a))
   \<and> (re_match CLF_RE l = None \<longrightarrow>
         (\<forall>a. ip (parseLine l) = Some a \<longrightarrow> (\<exists>u v. l = u @ a @ v \<and> ipv4_token u a v))
       \<and> (ip (parseLine l) = None \<longleftrightarrow> \<not> (\<exists>u a v. l = u @ a @ v \<and> ipv4_token u a v)))
   \<and> (ipv4_token u' a' v' \<longleftrightarrow>
         dotted_quad a' \<and> (u' = [] \<or> \<not> is_word (last u')) \<and> (v' = [] \<or> \<not> is_word (hd v')))
   \<and> (dotted_quad a' \<longleftrightarrow>
         (\<exists>d1 d2 d3 d4. a' = d1 @ ''.'' @ d2 @ ''.'' @ d3 @ ''.'' @ d4
            \<and> list_all (\<lambda>d. d \<noteq> [] \<and> length d \<le> 3 \<and> list_all is_digit d) [d1, d2, d3, d4]))"
proof (intro conjI allI impI)
  fix mt assume m: "re_match CLF_RE l = Some mt"
  from CLF_first_field [OF m] obtain a rest where
    "l = a @ CHR '' '' # rest" "a \<noteq> []" "list_all (\<lambda>c. \<not> is_space c) a" "group mt 1 = Some a"
    by blast
  with ip_parseLine_CLF [OF m]
  show "\<exists>a rest. l = a @ CHR '' '' # rest \<and> a \<noteq> [] \<and> list_all (\<lambda>c. \<not> is_space c) a
          \<and> ip (parseLine l) = Some a"
    by auto
next
  fix a assume n: "re_match CLF_RE l = None" and a: "ip (parseLine l) = Some a"
  from a obtain mt where mt: "re_match IP_RE l = Some mt" "a = matched mt"
    unfolding ip_parseLine_other [OF n] by auto
  from re_match_IP_RE_Some [OF mt(1)] mt(2)
  show "\<exists>u v. l = u @ a @ v \<and> ipv4_token u a v" by simp
next
  assume n: "re_match CLF_RE l = None"
  show "ip (parseLine l) = None \<longleftrightarrow> \<not> (\<exists>u a v. l = u @ a @ v \<and> ipv4_token u a v)"
    unfolding ip_parseLine_other [OF n] re_match_IP_RE_None [symmetric] by simp
next
  show "ipv4_token u' a' v' \<longleftrightarrow>
         dotted_quad a' \<and> (u' = [] \<or> \<not> is_word (last u')) \<and> (v' = [] \<or> \<not> is_word (hd v'))"
    by (simp add: ipv4_token_def)
next
  show "dotted_quad a' \<longleftrightarrow>
         (\<exists>d1 d2 d3 d4. a' = d1 @ ''.'' @ d2 @ ''.'' @ d3 @ ''.'' @ d4
            \<and> list_all (\<lambda>d. d \<noteq> [] \<and> length d \<le> 3 \<and> list_all is_digit d) [d1, d2, d3, d4])"
    unfolding dotted_quad_iff by (simp add: octet_def)
qed

theorem address_of_line_witness:
  "re_match CLF_RE ssh_line = None
   \<and> ip (parseLine ssh_line) = Some ''10.0.0.5''
   \<and> dotted_quad ''10.0.0.5''
   \<and> (\<exists>u v. ssh_line = u @ ''10.0.0.5'' @ v \<and> ipv4_token u ''10.0.0.5'' v)
   \<and> re_match CLF_RE status_only_line = None
   \<and> ip (parseLine status_only_line) = None
   \<and> \<not> (\<exists>u a v. status_only_line = u @ a @ v \<and> ipv4_token u a v)
   \<and> re_match CLF_RE clf_404_line \<noteq> None
   \<and> ip (parseLine clf_404_line) = Some ''10.0.0.1''"
proof -
  have ssh: "(\<forall>a. ip (parseLine ssh_line) = Some a \<longrightarrow>
                 (\<exists>u v. ssh_line = u @ a @ v \<and> ipv4_token u a v))
             \<and> (ip (parseLine ssh_line) = None \<longleftrightarrow>
                  \<not> (\<exists>u a v. ssh_line = u @ a @ v \<and> ipv4_token u a v))"
    using address_of_line [of ssh_line, THEN conjunct2, THEN conjunct1] ssh_line_CLF
    by (rule mp)
  have other: "(\<forall>a. ip (parseLine status_only_line) = Some a \<longrightarrow>
                 (\<exists>u v. status_only_line = u @ a @ v \<and> ipv4_token u a v))
             \<and> (ip (parseLine status_only_line) = None \<longleftrightarrow>
                  \<not> (\<exists>u a v. status_only_line = u @ a @ v \<and> ipv4_token u a v))"
    using address_of_line [of status_only_line, THEN conjunct2, THEN conjunct1]
      status_only_line_CLF
    by (rule mp)
  have 1: "ip (parseLine ssh_line) = Some ''10.0.0.5''"
    by (simp add: parseLine_ssh_line)
  have 2: "ip (parseLine status_only_line) = None"
    by (simp add: parseLine_status_only_line)
  note 3 = ssh [THEN conjunct1, rule_format, OF 1]
  note 4 = other [THEN conjunct2, THEN iffD1, OF 2]
  have 5: "re_match CLF_RE clf_404_line \<noteq> None"
    by (simp add: clf_404_line_CLF)
  have 6: "ip (parseLine clf_404_line) = Some ''10.0.0.1''"
    by (simp add: parseLine_clf_404_line)
  show ?thesis
    by (intro conjI) (rule ssh_line_CLF 1 dotted_quad_samples(1) 3 status_only_line_CLF 2 4 5 6)+
qed

end
